theory Spec2Isabelle
  imports Main
begin

section \<open>Lexical scanner (analisador\_lexical.py)\<close>

subsection \<open>Data model\<close>

text \<open>\<^verbatim>\<open>class LexicalError(Exception)\<close>: message, line, column and the optional
  offending character.\<close>

datatype LexicalError =
  LexicalError (err_message: string) (err_line: nat) (err_column: nat) (err_char: "char option")

text \<open>\<^verbatim>\<open>@dataclass class Token\<close>: type, value, line, column.\<close>

record token =
  tok_type :: string
  tok_value :: "string option"
  tok_line :: nat
  tok_column :: nat

abbreviation Token :: "string \<Rightarrow> string option \<Rightarrow> nat \<Rightarrow> nat \<Rightarrow> token" where
  "Token t v l c \<equiv> \<lparr>tok_type = t, tok_value = v, tok_line = l, tok_column = c\<rparr>"

text \<open>The scanner's cursor. \<^verbatim>\<open>self.length\<close> is \<^verbatim>\<open>len(self.text)\<close>, fixed at construction,
  and is read as \<open>length (lx_text s)\<close>.\<close>

record lexer =
  lx_text :: string
  lx_pos :: nat
  lx_current_char :: "char option"
  lx_line :: nat
  lx_col :: nat

abbreviation LF :: char where "LF \<equiv> CHR 0x0A"
abbreviation CR :: char where "CR \<equiv> CHR 0x0D"
abbreviation TAB :: char where "TAB \<equiv> CHR 0x09"

text \<open>\<^verbatim>\<open>RESERVED\<close>, the table of reserved words.\<close>

definition RESERVED :: "(string \<times> string) list" where
  "RESERVED =
    [(''int'', ''INT''), (''float'', ''FLOAT''),
     (''inicio'', ''INICIO''), (''decls'', ''DECLS''), (''fimdecls'', ''FIMDECLS''),
     (''codigo'', ''CODIGO''), (''fimprog'', ''FIMPROG''),
     (''leia'', ''LEIA''), (''escreva'', ''ESCREVA''),
     (''se'', ''SE''), (''entao'', ''ENTAO''), (''bloco'', ''BLOCO''), (''fimbloco'', ''FIMBLOCO''),
     (''e'', ''E''), (''ou'', ''OU''),
     (''print'', ''PRINT''), (''while'', ''WHILE''), (''else'', ''ELSE'')]"

text \<open>\<^verbatim>\<open>string.ascii_letters\<close>.\<close>

definition ascii_letters :: string where
  "ascii_letters = ''abcdefghijklmnopqrstuvwxyzABCDEFGHIJKLMNOPQRSTUVWXYZ''"

definition is_letter :: "char \<Rightarrow> bool" where
  "is_letter c = (c \<in> set ascii_letters)"

text \<open>\<^verbatim>\<open>'0' <= c <= '9'\<close>.\<close>

definition is_digit :: "char \<Rightarrow> bool" where
  "is_digit c = ((48::nat) \<le> of_char c \<and> of_char c \<le> (57::nat))"

text \<open>\<^verbatim>\<open>c in ' \t\n'\<close>.\<close>

definition is_space :: "char \<Rightarrow> bool" where
  "is_space c = (c = CHR '' '' \<or> c = TAB \<or> c = LF)"

text \<open>\<^verbatim>\<open>str.lower\<close> on the characters an identifier can hold.\<close>

definition lower_char :: "char \<Rightarrow> char" where
  "lower_char c =
     (if (65::nat) \<le> of_char c \<and> of_char c \<le> (90::nat) then char_of (of_char c + (32::nat)) else c)"

definition lower :: "string \<Rightarrow> string" where
  "lower s = map lower_char s"

subsection \<open>Construction\<close>

text \<open>\<^verbatim>\<open>text.replace('\r\n', '\n').replace('\r', '\n')\<close>, as two passes.\<close>

fun replace_crlf :: "string \<Rightarrow> string" where
  "replace_crlf (a # b # r) =
     (if a = CR \<and> b = LF then LF # replace_crlf r else a # replace_crlf (b # r))"
| "replace_crlf xs = xs"

definition replace_cr :: "string \<Rightarrow> string" where
  "replace_cr xs = map (\<lambda>c. if c = CR then LF else c) xs"

definition Lexer :: "string \<Rightarrow> lexer" where
  "Lexer txt =
     (let t = replace_cr (replace_crlf txt) in
      \<lparr>lx_text = t, lx_pos = 0,
       lx_current_char = (case t of [] \<Rightarrow> None | c # _ \<Rightarrow> Some c),
       lx_line = 1, lx_col = 1\<rparr>)"

subsection \<open>Cursor operations\<close>

definition lx_advance :: "lexer \<Rightarrow> lexer" where
  "lx_advance s =
     (let s1 = (if lx_current_char s = Some LF
                then s\<lparr>lx_line := lx_line s + 1, lx_col := 0\<rparr> else s);
          s2 = s1\<lparr>lx_pos := lx_pos s1 + 1\<rparr>
      in if lx_pos s2 \<ge> length (lx_text s2)
         then s2\<lparr>lx_current_char := None\<rparr>
         else s2\<lparr>lx_current_char := Some (lx_text s2 ! lx_pos s2), lx_col := lx_col s2 + 1\<rparr>)"

definition lx_peek :: "lexer \<Rightarrow> nat \<Rightarrow> char option" where
  "lx_peek s n =
     (let peek_pos = lx_pos s + n
      in if peek_pos \<ge> length (lx_text s) then None else Some (lx_text s ! peek_pos))"

text \<open>The \<^verbatim>\<open>while\<close> loop of \<^verbatim>\<open>peek_next_non_whitespace\<close> over the local index.\<close>

function peek_skip :: "string \<Rightarrow> nat \<Rightarrow> nat" where
  "peek_skip t p = (if p < length t \<and> is_space (t ! p) then peek_skip t (p + 1) else p)"
  by pat_completeness auto
termination
  by (relation "measure (\<lambda>(t, p). length t - p)") auto

declare peek_skip.simps [simp del]

definition peek_next_non_whitespace :: "lexer \<Rightarrow> char option" where
  "peek_next_non_whitespace s =
     (let p = peek_skip (lx_text s) (lx_pos s)
      in if p < length (lx_text s) then Some (lx_text s ! p) else None)"

text \<open>\<^verbatim>\<open>line or self.line\<close>: an omitted (or zero) argument falls back on the cursor.\<close>

definition py_or :: "nat option \<Rightarrow> nat \<Rightarrow> nat" where
  "py_or x d = (case x of None \<Rightarrow> d | Some n \<Rightarrow> if n = 0 then d else n)"

definition lx_error :: "lexer \<Rightarrow> string \<Rightarrow> char option \<Rightarrow> nat option \<Rightarrow> nat option \<Rightarrow> LexicalError" where
  "lx_error s msg ch ln cl = LexicalError msg (py_or ln (lx_line s)) (py_or cl (lx_col s)) ch"

text \<open>What is left to scan: the measure every scanner loop decreases.\<close>

definition remaining :: "lexer \<Rightarrow> nat" where
  "remaining s =
     (case lx_current_char s of None \<Rightarrow> 0 | Some _ \<Rightarrow> Suc (length (lx_text s) - lx_pos s))"

lemma remaining_advance:
  "lx_current_char s \<noteq> None \<Longrightarrow> remaining (lx_advance s) < remaining s"
  by (auto simp: remaining_def lx_advance_def Let_def split: option.splits)

subsection \<open>Skippable regions\<close>

function skip_whitespace :: "lexer \<Rightarrow> lexer" where
  "skip_whitespace s =
     (case lx_current_char s of
        None \<Rightarrow> s
      | Some c \<Rightarrow> if is_space c then skip_whitespace (lx_advance s) else s)"
  by pat_completeness auto
termination
  by (relation "measure remaining") (auto intro: remaining_advance)

declare skip_whitespace.simps [simp del]

function skip_line_comment :: "lexer \<Rightarrow> lexer" where
  "skip_line_comment s =
     (case lx_current_char s of
        None \<Rightarrow> s
      | Some c \<Rightarrow> if c \<noteq> LF then skip_line_comment (lx_advance s) else s)"
  by pat_completeness auto
termination
  by (relation "measure remaining") (auto intro: remaining_advance)

declare skip_line_comment.simps [simp del]

text \<open>The \<^verbatim>\<open>while\<close> loop of \<^verbatim>\<open>skip_block_comment\<close>; \<open>None\<close> when the input ends first.\<close>

function block_comment_loop :: "lexer \<Rightarrow> lexer option" where
  "block_comment_loop s =
     (case lx_current_char s of
        None \<Rightarrow> None
      | Some c \<Rightarrow>
          if c = CHR ''*'' \<and> lx_peek s 1 = Some (CHR ''/'')
          then Some (lx_advance (lx_advance s))
          else block_comment_loop (lx_advance s))"
  by pat_completeness auto
termination
  by (relation "measure remaining") (auto intro: remaining_advance)

declare block_comment_loop.simps [simp del]

definition skip_block_comment :: "lexer \<Rightarrow> LexicalError + lexer" where
  "skip_block_comment s =
     (let start_line = lx_line s; start_col = lx_col s;
          s2 = lx_advance (lx_advance s)
      in case block_comment_loop s2 of
           Some s' \<Rightarrow> Inr s'
         | None \<Rightarrow> Inl (LexicalError ''Unterminated block comment''
                          (py_or (Some start_line) (lx_line s2)) (py_or (Some start_col) (lx_col s2)) None))"

lemma skip_whitespace_remaining: "remaining (skip_whitespace s) \<le> remaining s"
proof (induction s rule: skip_whitespace.induct)
  case (1 s)
  show ?case
  proof (cases "lx_current_char s")
    case None
    then show ?thesis by (subst skip_whitespace.simps) simp
  next
    case (Some c)
    show ?thesis
    proof (cases "is_space c")
      case True
      have "remaining (skip_whitespace (lx_advance s)) \<le> remaining (lx_advance s)"
        using 1 Some True by simp
      also have "\<dots> < remaining s" using Some by (simp add: remaining_advance)
      finally show ?thesis using Some True by (subst skip_whitespace.simps) simp
    next
      case False
      then show ?thesis using Some by (subst skip_whitespace.simps) simp
    qed
  qed
qed

lemma skip_whitespace_progress:
  assumes "lx_current_char s = Some c" "is_space c"
  shows "remaining (skip_whitespace s) < remaining s"
proof -
  have "skip_whitespace s = skip_whitespace (lx_advance s)"
    using assms by (subst skip_whitespace.simps) simp
  moreover have "remaining (skip_whitespace (lx_advance s)) \<le> remaining (lx_advance s)"
    by (rule skip_whitespace_remaining)
  moreover have "remaining (lx_advance s) < remaining s"
    using assms by (simp add: remaining_advance)
  ultimately show ?thesis by simp
qed

lemma skip_line_comment_remaining: "remaining (skip_line_comment s) \<le> remaining s"
proof (induction s rule: skip_line_comment.induct)
  case (1 s)
  show ?case
  proof (cases "lx_current_char s")
    case None
    then show ?thesis by (subst skip_line_comment.simps) simp
  next
    case (Some c)
    show ?thesis
    proof (cases "c \<noteq> LF")
      case True
      have "remaining (skip_line_comment (lx_advance s)) \<le> remaining (lx_advance s)"
        using 1 Some True by simp
      also have "\<dots> < remaining s" using Some by (simp add: remaining_advance)
      finally show ?thesis using Some True by (subst skip_line_comment.simps) simp
    next
      case False
      then show ?thesis using Some by (subst skip_line_comment.simps) simp
    qed
  qed
qed

lemma skip_line_comment_progress:
  assumes "lx_current_char s = Some c" "c \<noteq> LF"
  shows "remaining (skip_line_comment s) < remaining s"
proof -
  have "skip_line_comment s = skip_line_comment (lx_advance s)"
    using assms by (subst skip_line_comment.simps) simp
  moreover have "remaining (skip_line_comment (lx_advance s)) \<le> remaining (lx_advance s)"
    by (rule skip_line_comment_remaining)
  moreover have "remaining (lx_advance s) < remaining s"
    using assms by (simp add: remaining_advance)
  ultimately show ?thesis by simp
qed

lemma peek_advance_current:
  "lx_peek s 1 = Some c \<Longrightarrow> lx_current_char (lx_advance s) = Some c"
  by (auto simp: lx_peek_def lx_advance_def Let_def split: if_splits)

lemma block_comment_loop_remaining:
  "block_comment_loop s = Some s' \<Longrightarrow> remaining s' < remaining s"
proof (induction s rule: block_comment_loop.induct)
  case (1 s)
  from "1.prems" obtain c where c: "lx_current_char s = Some c"
    by (subst (asm) block_comment_loop.simps) (auto split: option.splits)
  have adv: "remaining (lx_advance s) < remaining s" using c by (simp add: remaining_advance)
  show ?case
  proof (cases "c = CHR ''*'' \<and> lx_peek s 1 = Some (CHR ''/'')")
    case True
    then have s': "s' = lx_advance (lx_advance s)"
      using "1.prems" c by (subst (asm) block_comment_loop.simps) simp
    have "lx_current_char (lx_advance s) \<noteq> None"
      using True peek_advance_current by fastforce
    then have "remaining (lx_advance (lx_advance s)) < remaining (lx_advance s)"
      by (rule remaining_advance)
    then show ?thesis using adv s' by simp
  next
    case False
    then have "block_comment_loop (lx_advance s) = Some s'"
      using "1.prems" c by (subst (asm) block_comment_loop.simps) auto
    then have "remaining s' < remaining (lx_advance s)"
      using "1.IH" c False by blast
    then show ?thesis using adv by simp
  qed
qed

lemma skip_block_comment_remaining:
  assumes "lx_current_char s \<noteq> None" "skip_block_comment s = Inr s'"
  shows "remaining s' < remaining s"
proof -
  from assms(2) have l: "block_comment_loop (lx_advance (lx_advance s)) = Some s'"
    by (auto simp: skip_block_comment_def Let_def split: option.splits)
  then have a: "remaining s' < remaining (lx_advance (lx_advance s))"
    by (rule block_comment_loop_remaining)
  from l have "lx_current_char (lx_advance (lx_advance s)) \<noteq> None"
    by (subst (asm) block_comment_loop.simps) (simp split: option.splits)
  then have "lx_current_char (lx_advance s) \<noteq> None"
    by (auto simp: lx_advance_def Let_def split: if_splits)
  then have "remaining (lx_advance (lx_advance s)) < remaining (lx_advance s)"
    by (rule remaining_advance)
  moreover have "remaining (lx_advance s) < remaining s"
    using assms(1) by (rule remaining_advance)
  ultimately show ?thesis using a by simp
qed

subsection \<open>Numeric literals\<close>

text \<open>The digit loops of \<^verbatim>\<open>number\<close>: \<^verbatim>\<open>while ... '0' <= c <= '9': num_str += c; advance()\<close>.\<close>

function number_digits :: "lexer \<Rightarrow> string \<Rightarrow> string \<times> lexer" where
  "number_digits s num_str =
     (case lx_current_char s of
        None \<Rightarrow> (num_str, s)
      | Some c \<Rightarrow> if is_digit c then number_digits (lx_advance s) (num_str @ [c])
                  else (num_str, s))"
  by pat_completeness auto
termination
  by (relation "measure (\<lambda>(s, n). remaining s)") (auto intro: remaining_advance)

declare number_digits.simps [simp del]

definition no_digit :: "char option \<Rightarrow> bool" where
  "no_digit x = (case x of None \<Rightarrow> True | Some c \<Rightarrow> \<not> is_digit c)"

definition number :: "lexer \<Rightarrow> LexicalError + (token \<times> lexer)" where
  "number s =
     (let start_line = lx_line s; start_col = lx_col s in
      if lx_current_char s = Some (CHR ''.'') then
        (let s1 = lx_advance s in
         if no_digit (lx_current_char s1)
         then Inl (lx_error s1 ''Invalid numeric constant: '.' not followed by digits''
                     (Some (CHR ''.'')) (Some start_line) (Some start_col))
         else (case number_digits s1 ''.'' of
                 (num_str, s2) \<Rightarrow> Inr (Token ''NUMBER'' (Some num_str) start_line start_col, s2)))
      else
        (case number_digits s [] of
           (num_str, s1) \<Rightarrow>
             (case (if lx_current_char s1 = Some (CHR ''.'') then
                      (let s2 = lx_advance s1 in
                       if no_digit (lx_current_char s2)
                       then Inl (lx_error s2 ''Invalid numeric constant: digits required after decimal point''
                                   (Some (CHR ''.'')) (Some start_line) (Some start_col))
                       else Inr (number_digits s2 (num_str @ ''.'')))
                    else Inr (num_str, s1)) of
                Inl e \<Rightarrow> Inl e
              | Inr (num_str, s3) \<Rightarrow>
                  if lx_current_char s3 = Some (CHR ''.'')
                  then Inl (lx_error s3 ''Invalid numeric constant: multiple decimal points''
                              (Some (CHR ''.'')) None None)
                  else Inr (Token ''NUMBER'' (Some num_str) start_line start_col, s3))))"

subsection \<open>Identifiers and keywords\<close>

definition is_ident_char :: "char \<Rightarrow> bool" where
  "is_ident_char c = (is_letter c \<or> c = CHR ''_'' \<or> is_digit c)"

function identifier_chars :: "lexer \<Rightarrow> string \<Rightarrow> string \<times> lexer" where
  "identifier_chars s result =
     (case lx_current_char s of
        None \<Rightarrow> (result, s)
      | Some c \<Rightarrow> if is_ident_char c then identifier_chars (lx_advance s) (result @ [c])
                  else (result, s))"
  by pat_completeness auto
termination
  by (relation "measure (\<lambda>(s, n). remaining s)") (auto intro: remaining_advance)

declare identifier_chars.simps [simp del]

definition identifier_or_keyword :: "lexer \<Rightarrow> LexicalError + (token \<times> lexer)" where
  "identifier_or_keyword s =
     (let start_line = lx_line s; start_col = lx_col s in
      case lx_current_char s of
        None \<Rightarrow> Inl (lx_error s ''Unexpected end while parsing identifier'' None
                       (Some start_line) (Some start_col))
      | Some c \<Rightarrow>
          if \<not> is_letter c \<and> c \<noteq> CHR ''_''
          then Inl (lx_error s ''Identifiers must start with ASCII letter or underscore'' (Some c)
                      (Some start_line) (Some start_col))
          else (case identifier_chars s [] of
                  (result, s1) \<Rightarrow>
                    (let typ = (case map_of RESERVED (lower result) of
                                  None \<Rightarrow> ''IDENTIFIER'' | Some t \<Rightarrow> t)
                     in Inr (Token typ (Some result) start_line start_col, s1))))"

lemma number_digits_remaining:
  "number_digits s acc = (r, s') \<Longrightarrow> remaining s' \<le> remaining s"
proof (induction s acc rule: number_digits.induct)
  case (1 s acc)
  show ?case
  proof (cases "lx_current_char s")
    case None
    then show ?thesis using "1.prems" by (subst (asm) number_digits.simps) simp
  next
    case (Some c)
    show ?thesis
    proof (cases "is_digit c")
      case True
      then have "number_digits (lx_advance s) (acc @ [c]) = (r, s')"
        using "1.prems" Some by (subst (asm) number_digits.simps) simp
      then have "remaining s' \<le> remaining (lx_advance s)"
        using "1.IH" Some True by blast
      moreover have "remaining (lx_advance s) < remaining s"
        using Some by (simp add: remaining_advance)
      ultimately show ?thesis by simp
    next
      case False
      then show ?thesis using "1.prems" Some by (subst (asm) number_digits.simps) simp
    qed
  qed
qed

lemma number_digits_progress:
  assumes "lx_current_char s = Some c" "is_digit c" "number_digits s acc = (r, s')"
  shows "remaining s' < remaining s"
proof -
  have "number_digits (lx_advance s) (acc @ [c]) = (r, s')"
    using assms by (subst (asm) number_digits.simps) simp
  then have "remaining s' \<le> remaining (lx_advance s)" by (rule number_digits_remaining)
  moreover have "remaining (lx_advance s) < remaining s"
    using assms(1) by (simp add: remaining_advance)
  ultimately show ?thesis by simp
qed

lemma identifier_chars_remaining:
  "identifier_chars s acc = (r, s') \<Longrightarrow> remaining s' \<le> remaining s"
proof (induction s acc rule: identifier_chars.induct)
  case (1 s acc)
  show ?case
  proof (cases "lx_current_char s")
    case None
    then show ?thesis using "1.prems" by (subst (asm) identifier_chars.simps) simp
  next
    case (Some c)
    show ?thesis
    proof (cases "is_ident_char c")
      case True
      then have "identifier_chars (lx_advance s) (acc @ [c]) = (r, s')"
        using "1.prems" Some by (subst (asm) identifier_chars.simps) simp
      then have "remaining s' \<le> remaining (lx_advance s)"
        using "1.IH" Some True by blast
      moreover have "remaining (lx_advance s) < remaining s"
        using Some by (simp add: remaining_advance)
      ultimately show ?thesis by simp
    next
      case False
      then show ?thesis using "1.prems" Some by (subst (asm) identifier_chars.simps) simp
    qed
  qed
qed

lemma identifier_chars_progress:
  assumes "lx_current_char s = Some c" "is_ident_char c" "identifier_chars s acc = (r, s')"
  shows "remaining s' < remaining s"
proof -
  have "identifier_chars (lx_advance s) (acc @ [c]) = (r, s')"
    using assms by (subst (asm) identifier_chars.simps) simp
  then have "remaining s' \<le> remaining (lx_advance s)" by (rule identifier_chars_remaining)
  moreover have "remaining (lx_advance s) < remaining s"
    using assms(1) by (simp add: remaining_advance)
  ultimately show ?thesis by simp
qed

subsection \<open>Token recognition\<close>

function get_next_token :: "lexer \<Rightarrow> LexicalError + (token \<times> lexer)" where
  "get_next_token s =
     (case lx_current_char s of
        None \<Rightarrow> Inr (Token ''EOF'' None (lx_line s) (lx_col s), s)
      | Some c \<Rightarrow>
          if is_space c then get_next_token (skip_whitespace s)
          else if c = CHR ''#'' then get_next_token (skip_line_comment s)
          else if c = CHR ''/'' \<and> lx_peek s 1 = Some (CHR ''*'') then
            (case skip_block_comment s of Inl e \<Rightarrow> Inl e | Inr s' \<Rightarrow> get_next_token s')
          else if c = CHR ''+'' then
            Inr (Token ''PLUS'' (Some ''+'') (lx_line s) (lx_col s), lx_advance s)
          else if c = CHR ''-'' then
            Inr (Token ''MINUS'' (Some ''-'') (lx_line s) (lx_col s), lx_advance s)
          else if c = CHR ''*'' then
            Inr (Token ''MUL'' (Some ''*'') (lx_line s) (lx_col s), lx_advance s)
          else if c = CHR ''/'' then
            Inr (Token ''DIV'' (Some ''/'') (lx_line s) (lx_col s), lx_advance s)
          else if c = CHR ''('' then
            Inr (Token ''LPAREN'' (Some ''('') (lx_line s) (lx_col s), lx_advance s)
          else if c = CHR '')'' then
            Inr (Token ''RPAREN'' (Some '')'') (lx_line s) (lx_col s), lx_advance s)
          else if c = CHR ''>'' then
            (if lx_peek s 1 = Some (CHR ''='')
             then Inr (Token ''GE'' (Some ''>='') (lx_line s) (lx_col s), lx_advance (lx_advance s))
             else Inr (Token ''GT'' (Some ''>'') (lx_line s) (lx_col s), lx_advance s))
          else if c = CHR ''<'' then
            (if lx_peek s 1 = Some (CHR ''='')
             then Inr (Token ''LE'' (Some ''<='') (lx_line s) (lx_col s), lx_advance (lx_advance s))
             else Inr (Token ''LT'' (Some ''<'') (lx_line s) (lx_col s), lx_advance s))
          else if c = CHR ''!'' then
            (if lx_peek s 1 = Some (CHR ''='')
             then Inr (Token ''NE'' (Some ''!='') (lx_line s) (lx_col s), lx_advance (lx_advance s))
             else Inl (lx_error s ''Unexpected '!' (expected '!=')'' (Some (CHR ''!''))
                         (Some (lx_line s)) (Some (lx_col s))))
          else if c = CHR ''='' then
            (if lx_peek s 1 = Some (CHR ''='')
             then Inr (Token ''EQ'' (Some ''=='') (lx_line s) (lx_col s), lx_advance (lx_advance s))
             else Inr (Token ''ASSIGN'' (Some ''='') (lx_line s) (lx_col s), lx_advance s))
          else if is_digit c \<or> (c = CHR ''.'' \<and> \<not> no_digit (lx_peek s 1)) then
            (case number s of
               Inl e \<Rightarrow> Inl e
             | Inr (tok, s') \<Rightarrow>
                 if peek_next_non_whitespace s' = Some (CHR ''.'')
                 then Inl (lx_error s' ''Invalid numeric constant: unexpected '.' after number''
                             (Some (CHR ''.'')) (Some (tok_line tok)) (Some (tok_column tok)))
                 else Inr (tok, s'))
          else if is_letter c \<or> c = CHR ''_'' then identifier_or_keyword s
          else if c = CHR '':'' then
            Inr (Token ''COLON'' (Some '':'') (lx_line s) (lx_col s), lx_advance s)
          else Inl (lx_error s ''Invalid character'' (Some c) (Some (lx_line s)) (Some (lx_col s))))"
  by pat_completeness auto
termination
proof (relation "measure remaining", goal_cases)
  case 1
  show ?case by simp
next
  case (2 s c)
  then show ?case by (simp add: skip_whitespace_progress)
next
  case (3 s c)
  then show ?case by (simp add: skip_line_comment_progress)
next
  case (4 s c s')
  then show ?case by (simp add: skip_block_comment_remaining)
qed

declare get_next_token.simps [simp del]

lemma advance2_remaining:
  "lx_current_char s \<noteq> None \<Longrightarrow> lx_peek s 1 = Some c \<Longrightarrow> remaining (lx_advance (lx_advance s)) < remaining s"
  using remaining_advance[of s] remaining_advance[of "lx_advance s"] peek_advance_current[of s c]
  by simp

lemma number_progress:
  assumes "lx_current_char s = Some c" "is_digit c \<or> c = CHR ''.''" "number s = Inr (tok, s')"
  shows "remaining s' < remaining s"
proof (cases "c = CHR ''.''")
  case True
  with assms(1,3) obtain r where nd: "number_digits (lx_advance s) ''.'' = (r, s')"
    by (auto simp: number_def Let_def split: if_splits prod.splits)
  have "remaining s' \<le> remaining (lx_advance s)" using nd by (rule number_digits_remaining)
  moreover have "remaining (lx_advance s) < remaining s" using assms(1) by (simp add: remaining_advance)
  ultimately show ?thesis by simp
next
  case False
  then have d: "is_digit c" using assms(2) by simp
  obtain r1 s1 where nd: "number_digits s [] = (r1, s1)" by (cases "number_digits s []")
  have p1: "remaining s1 < remaining s" using assms(1) d nd by (rule number_digits_progress)
  show ?thesis
  proof (cases "lx_current_char s1 = Some (CHR ''.'')")
    case True
    then obtain r2 where nd2: "number_digits (lx_advance s1) (r1 @ ''.'') = (r2, s')"
      using assms(1,3) False nd by (auto simp: number_def Let_def split: if_splits prod.splits)
    have "remaining s' \<le> remaining (lx_advance s1)" using nd2 by (rule number_digits_remaining)
    moreover have "remaining (lx_advance s1) < remaining s1" using True by (simp add: remaining_advance)
    ultimately show ?thesis using p1 by simp
  next
    case F2: False
    then have "s' = s1"
      using assms(1,3) False nd by (auto simp: number_def Let_def split: if_splits prod.splits)
    then show ?thesis using p1 by simp
  qed
qed

lemma identifier_progress:
  assumes "lx_current_char s = Some c" "is_letter c \<or> c = CHR ''_''" "identifier_or_keyword s = Inr (tok, s')"
  shows "remaining s' < remaining s"
proof -
  obtain r where "identifier_chars s [] = (r, s')"
    using assms by (auto simp: identifier_or_keyword_def Let_def split: if_splits prod.splits)
  moreover have "is_ident_char c" using assms(2) by (auto simp: is_ident_char_def)
  ultimately show ?thesis using assms(1) identifier_chars_progress by blast
qed

lemma get_next_token_other:
  assumes "lx_current_char s = Some c" "\<not> is_space c" "c \<noteq> CHR ''#''"
    "\<not> (c = CHR ''/'' \<and> lx_peek s 1 = Some (CHR ''*''))"
    "get_next_token s = Inr (tok, s')"
  shows "s' = lx_advance s \<or> (\<exists>d. lx_peek s 1 = Some d \<and> s' = lx_advance (lx_advance s))
     \<or> ((is_digit c \<or> c = CHR ''.'') \<and> number s = Inr (tok, s'))
     \<or> ((is_letter c \<or> c = CHR ''_'') \<and> identifier_or_keyword s = Inr (tok, s'))"
  using assms(5) assms(1-4)
  apply (subst (asm) get_next_token.simps)
  apply (simp split: if_splits sum.splits prod.splits)
   apply blast+
  done

lemma get_next_token_progress:
  "get_next_token s = Inr (tok, s') \<Longrightarrow> tok_type tok \<noteq> ''EOF'' \<Longrightarrow> remaining s' < remaining s"
proof (induction s rule: get_next_token.induct)
  case (1 s)
  show ?case
  proof (cases "lx_current_char s")
    case None
    then show ?thesis using "1.prems" by (subst (asm) get_next_token.simps) auto
  next
    case (Some c)
    have adv: "remaining (lx_advance s) < remaining s" using Some by (simp add: remaining_advance)
    have adv2: "\<And>d. lx_peek s 1 = Some d \<Longrightarrow> remaining (lx_advance (lx_advance s)) < remaining s"
      using Some advance2_remaining by simp
    consider (sp) "is_space c" | (hash) "\<not> is_space c" "c = CHR ''#''"
      | (blk) "\<not> is_space c" "c \<noteq> CHR ''#''" "c = CHR ''/'' \<and> lx_peek s 1 = Some (CHR ''*'')"
      | (other) "\<not> is_space c" "c \<noteq> CHR ''#''" "\<not> (c = CHR ''/'' \<and> lx_peek s 1 = Some (CHR ''*''))"
      by blast
    then show ?thesis
    proof cases
      case sp
      then have "get_next_token (skip_whitespace s) = Inr (tok, s')"
        using "1.prems"(1) Some by (subst (asm) get_next_token.simps) simp
      then have "remaining s' < remaining (skip_whitespace s)"
        using "1.IH"(1) Some sp "1.prems"(2) by blast
      then show ?thesis using skip_whitespace_progress[OF Some sp] by simp
    next
      case hash
      then have "get_next_token (skip_line_comment s) = Inr (tok, s')"
        using "1.prems"(1) Some by (subst (asm) get_next_token.simps) simp
      then have "remaining s' < remaining (skip_line_comment s)"
        using "1.IH"(2) Some hash "1.prems"(2) by blast
      moreover have "remaining (skip_line_comment s) < remaining s"
        using hash by (intro skip_line_comment_progress[OF Some]) simp
      ultimately show ?thesis by simp
    next
      case blk
      then obtain s1 where s1: "skip_block_comment s = Inr s1" "get_next_token s1 = Inr (tok, s')"
        using "1.prems"(1) Some by (subst (asm) get_next_token.simps) (auto split: sum.splits)
      then have "remaining s' < remaining s1"
        using "1.IH"(3) Some blk "1.prems"(2) by blast
      moreover have "remaining s1 < remaining s"
        using s1(1) Some by (intro skip_block_comment_remaining) auto
      ultimately show ?thesis by simp
    next
      case other
      from get_next_token_other[OF Some other "1.prems"(1)]
      show ?thesis
        using adv adv2 number_progress[OF Some] identifier_progress[OF Some] by blast
    qed
  qed
qed

text \<open>\<^verbatim>\<open>tokenize\<close>: the \<^verbatim>\<open>while True\<close> loop, with the list built so far.\<close>

function tokenize_loop :: "lexer \<Rightarrow> token list \<Rightarrow> LexicalError + token list" where
  "tokenize_loop s tokens =
     (case get_next_token s of
        Inl e \<Rightarrow> Inl e
      | Inr (tok, s') \<Rightarrow>
          if tok_type tok = ''EOF'' then Inr (tokens @ [tok])
          else tokenize_loop s' (tokens @ [tok]))"
  by pat_completeness auto
termination
  by (relation "measure (\<lambda>(s, ts). remaining s)") (auto intro: get_next_token_progress)

declare tokenize_loop.simps [simp del]

definition tokenize :: "lexer \<Rightarrow> LexicalError + token list" where
  "tokenize s = tokenize_loop s []"

lemmas lexer_eval =
  tokenize_def tokenize_loop.simps get_next_token.simps skip_whitespace.simps
  skip_line_comment.simps skip_block_comment_def block_comment_loop.simps
  number_def number_digits.simps identifier_or_keyword_def identifier_chars.simps
  peek_next_non_whitespace_def peek_skip.simps lx_advance_def lx_peek_def lx_error_def py_or_def
  Lexer_def replace_cr_def is_space_def is_digit_def is_letter_def ascii_letters_def
  is_ident_char_def no_digit_def lower_def lower_char_def RESERVED_def Let_def

section \<open>Positions in the text\<close>

text \<open>The 1-based line and column of offset \<open>p\<close> of a text: one more than the number of
  newlines before \<open>p\<close>, and one more than the number of characters since the last of them.\<close>

definition line_of :: "string \<Rightarrow> nat \<Rightarrow> nat" where
  "line_of t p = Suc (length (filter (\<lambda>c. c = LF) (take p t)))"

definition col_of :: "string \<Rightarrow> nat \<Rightarrow> nat" where
  "col_of t p = Suc (length (takeWhile (\<lambda>c. c \<noteq> LF) (rev (take p t))))"

text \<open>The cursor is consistent with its text: the current character is the one under
  \<open>lx_pos\<close>, and line and column are those of that offset.\<close>

definition lexer_ok :: "lexer \<Rightarrow> bool" where
  "lexer_ok s \<longleftrightarrow>
     lx_current_char s = (if lx_pos s < length (lx_text s) then Some (lx_text s ! lx_pos s) else None)
     \<and> lx_line s = line_of (lx_text s) (lx_pos s)
     \<and> (lx_pos s < length (lx_text s) \<longrightarrow> lx_col s = col_of (lx_text s) (lx_pos s))"

lemma line_of_Suc:
  "p < length t \<Longrightarrow> line_of t (Suc p) = (if t ! p = LF then Suc (line_of t p) else line_of t p)"
  by (simp add: line_of_def take_Suc_conv_app_nth)

lemma col_of_Suc:
  "p < length t \<Longrightarrow> col_of t (Suc p) = (if t ! p = LF then 1 else Suc (col_of t p))"
  by (simp add: col_of_def take_Suc_conv_app_nth)

lemma lexer_ok_Lexer: "lexer_ok (Lexer txt)"
  by (cases "replace_cr (replace_crlf txt)")
     (simp_all add: lexer_ok_def Lexer_def Let_def line_of_def col_of_def)

lemma lexer_ok_advance:
  assumes "lexer_ok s" "lx_pos s < length (lx_text s)"
  shows "lexer_ok (lx_advance s)"
  using assms
  by (auto simp: lexer_ok_def lx_advance_def Let_def line_of_Suc col_of_Suc)

lemma advance_text [simp]: "lx_text (lx_advance s) = lx_text s"
  by (simp add: lx_advance_def Let_def)

lemma advance_pos [simp]: "lx_pos (lx_advance s) = Suc (lx_pos s)"
  by (simp add: lx_advance_def Let_def)

lemma lexer_ok_current:
  "lexer_ok s \<Longrightarrow> lx_current_char s = Some c \<longleftrightarrow> lx_pos s < length (lx_text s) \<and> lx_text s ! lx_pos s = c"
  by (auto simp: lexer_ok_def)

text \<open>The offset of the first \<^verbatim>\<open>*/\<close> in a text, if there is one.\<close>

fun find_close :: "string \<Rightarrow> nat option" where
  "find_close (a # b # r) =
     (if a = CHR ''*'' \<and> b = CHR ''/'' then Some 0 else map_option Suc (find_close (b # r)))"
| "find_close xs = None"

lemma lexer_ok_advance_iff:
  "lexer_ok s \<Longrightarrow> lx_current_char s = Some c \<Longrightarrow> lexer_ok (lx_advance s)"
  by (rule lexer_ok_advance) (auto simp: lexer_ok_def split: if_splits)

lemma lexer_ok_funpow:
  "lexer_ok s \<Longrightarrow> lx_pos s + n \<le> length (lx_text s) \<Longrightarrow> lexer_ok ((lx_advance ^^ n) s)
     \<and> lx_pos ((lx_advance ^^ n) s) = lx_pos s + n \<and> lx_text ((lx_advance ^^ n) s) = lx_text s"
proof (induction n)
  case 0
  then show ?case by simp
next
  case (Suc n)
  then have ih: "lexer_ok ((lx_advance ^^ n) s)" "lx_pos ((lx_advance ^^ n) s) = lx_pos s + n"
    "lx_text ((lx_advance ^^ n) s) = lx_text s" by simp_all
  have "lexer_ok (lx_advance ((lx_advance ^^ n) s))"
    using ih Suc.prems(2) by (intro lexer_ok_advance) simp_all
  then show ?case using ih by simp
qed

lemma block_comment_loop_find:
  "lexer_ok s \<Longrightarrow>
   block_comment_loop s =
     (case find_close (drop (lx_pos s) (lx_text s)) of
        None \<Rightarrow> None
      | Some k \<Rightarrow> Some ((lx_advance ^^ (k + 2)) s))"
proof (induction s rule: block_comment_loop.induct)
  case (1 s)
  show ?case
  proof (cases "lx_current_char s")
    case None
    then have "length (lx_text s) \<le> lx_pos s" using "1.prems" by (auto simp: lexer_ok_def split: if_splits)
    then show ?thesis using None by (subst block_comment_loop.simps) simp
  next
    case (Some c)
    then have lt: "lx_pos s < length (lx_text s)" and c: "lx_text s ! lx_pos s = c"
      using "1.prems" by (auto simp: lexer_ok_def split: if_splits)
    have d: "drop (lx_pos s) (lx_text s) = c # drop (Suc (lx_pos s)) (lx_text s)"
      using Cons_nth_drop_Suc[OF lt] c by simp
    show ?thesis
    proof (cases "c = CHR ''*'' \<and> lx_peek s 1 = Some (CHR ''/'')")
      case True
      then have lt2: "Suc (lx_pos s) < length (lx_text s)" and c2: "lx_text s ! Suc (lx_pos s) = CHR ''/''"
        by (auto simp: lx_peek_def Let_def split: if_splits)
      have d2: "drop (Suc (lx_pos s)) (lx_text s) = CHR ''/'' # drop (Suc (Suc (lx_pos s))) (lx_text s)"
        using Cons_nth_drop_Suc[OF lt2] c2 by simp
      show ?thesis using True Some d d2
        by (subst block_comment_loop.simps) (simp add: numeral_2_eq_2)
    next
      case False
      have ok': "lexer_ok (lx_advance s)" using "1.prems" Some by (rule lexer_ok_advance_iff)
      have ih: "block_comment_loop (lx_advance s) =
         (case find_close (drop (Suc (lx_pos s)) (lx_text s)) of
            None \<Rightarrow> None | Some k \<Rightarrow> Some ((lx_advance ^^ (k + 2)) (lx_advance s)))"
        using "1.IH"[OF Some False ok'] by simp
      have fc: "find_close (c # drop (Suc (lx_pos s)) (lx_text s)) =
          map_option Suc (find_close (drop (Suc (lx_pos s)) (lx_text s)))"
      proof (cases "drop (Suc (lx_pos s)) (lx_text s)")
        case Nil
        then show ?thesis by simp
      next
        case (Cons b r)
        then have l2: "Suc (lx_pos s) < length (lx_text s)"
          by (cases "Suc (lx_pos s) < length (lx_text s)") simp_all
        have "lx_text s ! Suc (lx_pos s) = b"
          using Cons Cons_nth_drop_Suc[OF l2] by simp
        then have "lx_peek s 1 = Some b" using l2 by (simp add: lx_peek_def Let_def)
        then show ?thesis using False Cons by auto
      qed
      have "block_comment_loop s = block_comment_loop (lx_advance s)"
        using Some False by (subst block_comment_loop.simps) auto
      then show ?thesis using ih d fc
        by (auto split: option.splits simp: funpow_swap1)
    qed
  qed
qed

lemma funpow_advance_pos [simp]: "lx_pos ((lx_advance ^^ n) s) = lx_pos s + n"
  by (induction n) simp_all

lemma funpow_advance_text [simp]: "lx_text ((lx_advance ^^ n) s) = lx_text s"
  by (induction n) simp_all

lemma line_of_neq0 [simp]: "line_of t p \<noteq> 0"
  by (simp add: line_of_def)

lemma col_of_neq0 [simp]: "col_of t p \<noteq> 0"
  by (simp add: col_of_def)

lemma skip_block_comment_find:
  assumes "lexer_ok s" "lx_current_char s = Some (CHR ''/'')" "lx_peek s 1 = Some (CHR ''*'')"
  shows "skip_block_comment s =
     (case find_close (drop (lx_pos s + 2) (lx_text s)) of
        None \<Rightarrow> Inl (LexicalError ''Unterminated block comment''
                      (line_of (lx_text s) (lx_pos s)) (col_of (lx_text s) (lx_pos s)) None)
      | Some k \<Rightarrow> Inr ((lx_advance ^^ (k + 4)) s))"
proof -
  have lt: "lx_pos s < length (lx_text s)" using assms(1,2) by (auto simp: lexer_ok_def split: if_splits)
  have lt2: "Suc (lx_pos s) < length (lx_text s)" using assms(3) by (auto simp: lx_peek_def Let_def split: if_splits)
  have ok1: "lexer_ok (lx_advance s)" using assms(1) lt by (rule lexer_ok_advance)
  have ok2: "lexer_ok (lx_advance (lx_advance s))" by (rule lexer_ok_advance) (use ok1 lt2 in simp_all)
  have line: "lx_line s = line_of (lx_text s) (lx_pos s)" and col: "lx_col s = col_of (lx_text s) (lx_pos s)"
    using assms(1) lt by (auto simp: lexer_ok_def)
  have fp: "\<And>k. (lx_advance ^^ (k + 2)) (lx_advance (lx_advance s)) = (lx_advance ^^ (k + 4)) s"
  proof -
    fix k
    have "(lx_advance ^^ (k + 4)) s = (lx_advance ^^ ((k + 2) + 2)) s" by (simp add: numeral_Bit0)
    also have "\<dots> = (lx_advance ^^ (k + 2)) ((lx_advance ^^ 2) s)" by (simp only: funpow_add o_apply)
    finally show "(lx_advance ^^ (k + 2)) (lx_advance (lx_advance s)) = (lx_advance ^^ (k + 4)) s"
      by (simp add: numeral_2_eq_2)
  qed
  show ?thesis
    using block_comment_loop_find[OF ok2] line col fp
    by (simp add: skip_block_comment_def Let_def py_or_def split: option.splits)
qed

lemma get_next_token_block_comment:
  assumes "lx_current_char s = Some (CHR ''/'')" "lx_peek s 1 = Some (CHR ''*'')"
  shows "get_next_token s =
    (case skip_block_comment s of Inl e \<Rightarrow> Inl e | Inr s' \<Rightarrow> get_next_token s')"
  using assms by (subst get_next_token.simps) (simp add: is_space_def)

lemma tokenize_cong:
  "get_next_token s = get_next_token s' \<Longrightarrow> tokenize s = tokenize s'"
  by (simp add: tokenize_def tokenize_loop.simps[of s] tokenize_loop.simps[of s'])

lemma tokenize_fault:
  "get_next_token s = Inl e \<Longrightarrow> tokenize s = Inl e"
  by (simp add: tokenize_def tokenize_loop.simps[of s])

lemma funpow_numeral_unfold: "(f ^^ numeral k) x = f ((f ^^ pred_numeral k) x)"
  by (simp add: numeral_eq_Suc)

text \<open>The part of the text still to be scanned.\<close>

definition rest_of :: "lexer \<Rightarrow> string" where
  "rest_of s = drop (lx_pos s) (lx_text s)"

lemma rest_of_Cons:
  "rest_of s = c # r \<Longrightarrow> lx_pos s < length (lx_text s) \<and> lx_text s ! lx_pos s = c"
proof -
  assume a: "rest_of s = c # r"
  then have l: "lx_pos s < length (lx_text s)"
    by (cases "lx_pos s < length (lx_text s)") (simp_all add: rest_of_def)
  from Cons_nth_drop_Suc[OF l] a show ?thesis using l by (simp add: rest_of_def)
qed

lemma current_char_rest:
  "lexer_ok s \<Longrightarrow> lx_current_char s = (case rest_of s of [] \<Rightarrow> None | c # _ \<Rightarrow> Some c)"
proof (cases "rest_of s")
  case Nil
  assume "lexer_ok s"
  with Nil show ?thesis by (simp add: lexer_ok_def rest_of_def)
next
  case (Cons c r)
  assume "lexer_ok s"
  with rest_of_Cons[OF Cons] Cons show ?thesis by (simp add: lexer_ok_def)
qed

lemma rest_of_advance [simp]: "rest_of (lx_advance s) = tl (rest_of s)"
  by (simp add: rest_of_def drop_Suc tl_drop)

lemma rest_of_funpow [simp]: "rest_of ((lx_advance ^^ n) s) = drop n (rest_of s)"
  by (simp add: rest_of_def add.commute)

lemma lexer_ok_funpow_rest:
  "lexer_ok s \<Longrightarrow> n \<le> length (rest_of s) \<Longrightarrow> lexer_ok ((lx_advance ^^ n) s)"
proof -
  assume ok: "lexer_ok s" and n: "n \<le> length (rest_of s)"
  show ?thesis
  proof (cases "n = 0")
    case True
    then show ?thesis using ok by simp
  next
    case False
    then have "lx_pos s + n \<le> length (lx_text s)" using n by (simp add: rest_of_def)
    with ok show ?thesis using lexer_ok_funpow[of s n] by simp
  qed
qed

lemma lexer_ok_advance_rest:
  "lexer_ok s \<Longrightarrow> rest_of s = c # r \<Longrightarrow> lexer_ok (lx_advance s)"
  using rest_of_Cons[of s c r] by (simp add: lexer_ok_advance)

lemma lexer_ok_line_col:
  "lexer_ok s \<Longrightarrow> rest_of s = c # r \<Longrightarrow>
     lx_line s = line_of (lx_text s) (lx_pos s) \<and> lx_col s = col_of (lx_text s) (lx_pos s)"
  using rest_of_Cons[of s c r] by (simp add: lexer_ok_def)

lemma peek_rest:
  "lx_peek s 1 = (case rest_of s of _ # c # _ \<Rightarrow> Some c | _ \<Rightarrow> None)"
proof (cases "Suc (lx_pos s) < length (lx_text s)")
  case True
  then have l: "lx_pos s < length (lx_text s)" by simp
  have "rest_of s = lx_text s ! lx_pos s # lx_text s ! Suc (lx_pos s) # drop (Suc (Suc (lx_pos s))) (lx_text s)"
    using Cons_nth_drop_Suc[OF l] Cons_nth_drop_Suc[OF True] by (simp add: rest_of_def)
  then show ?thesis using True by (simp add: lx_peek_def Let_def)
next
  case False
  then have "length (rest_of s) \<le> 1" by (simp add: rest_of_def)
  then have "rest_of s = [] \<or> (\<exists>c. rest_of s = [c])"
    by (cases "rest_of s") (auto simp: le_Suc_eq)
  then show ?thesis using False by (auto simp: lx_peek_def Let_def)
qed

lemma number_digits_spec:
  "lexer_ok s \<Longrightarrow>
   number_digits s acc =
     (acc @ takeWhile is_digit (rest_of s),
      (lx_advance ^^ length (takeWhile is_digit (rest_of s))) s)"
proof (induction s acc rule: number_digits.induct)
  case (1 s acc)
  show ?case
  proof (cases "rest_of s")
    case Nil
    then have "lx_current_char s = None" using "1.prems" by (simp add: current_char_rest)
    then show ?thesis using Nil by (subst number_digits.simps) simp
  next
    case (Cons c r)
    then have cc: "lx_current_char s = Some c" using "1.prems" by (simp add: current_char_rest)
    show ?thesis
    proof (cases "is_digit c")
      case True
      have ok: "lexer_ok (lx_advance s)" using "1.prems" Cons by (rule lexer_ok_advance_rest)
      have "number_digits s acc = number_digits (lx_advance s) (acc @ [c])"
        using cc True by (subst number_digits.simps) simp
      also have "\<dots> = ((acc @ [c]) @ takeWhile is_digit (rest_of (lx_advance s)),
          (lx_advance ^^ length (takeWhile is_digit (rest_of (lx_advance s)))) (lx_advance s))"
        using "1.IH"[OF cc True ok] .
      finally show ?thesis using Cons True by (simp add: funpow_swap1)
    next
      case False
      then show ?thesis using cc Cons by (subst number_digits.simps) simp
    qed
  qed
qed

lemma peek_skip_spec:
  "p \<le> length t \<Longrightarrow> peek_skip t p = p + length (takeWhile is_space (drop p t))"
proof (induction t p rule: peek_skip.induct)
  case (1 t p)
  show ?case
  proof (cases "p < length t \<and> is_space (t ! p)")
    case True
    then have "peek_skip t p = peek_skip t (p + 1)" by (subst peek_skip.simps) simp
    also have "\<dots> = p + 1 + length (takeWhile is_space (drop (p + 1) t))"
      using "1.IH"[OF True] True by simp
    finally show ?thesis using True Cons_nth_drop_Suc[of p t, symmetric] by simp
  next
    case False
    then have "peek_skip t p = p" by (subst peek_skip.simps) (simp only: if_False)
    moreover have "takeWhile is_space (drop p t) = []"
    proof (cases "p < length t")
      case True
      then show ?thesis using False Cons_nth_drop_Suc[of p t, symmetric] by simp
    next
      case False
      then show ?thesis by simp
    qed
    ultimately show ?thesis by simp
  qed
qed

lemma peek_next_non_whitespace_spec:
  assumes "lx_pos s \<le> length (lx_text s)"
  shows "peek_next_non_whitespace s =
     (case dropWhile is_space (rest_of s) of [] \<Rightarrow> None | c # _ \<Rightarrow> Some c)"
proof -
  let ?w = "takeWhile is_space (rest_of s)"
  have p: "peek_skip (lx_text s) (lx_pos s) = lx_pos s + length ?w"
    using peek_skip_spec[OF assms] by (simp add: rest_of_def)
  have d: "dropWhile is_space (rest_of s) = drop (lx_pos s + length ?w) (lx_text s)"
    by (simp add: dropWhile_eq_drop rest_of_def add.commute)
  show ?thesis
  proof (cases "lx_pos s + length ?w < length (lx_text s)")
    case True
    from Cons_nth_drop_Suc[OF True] show ?thesis using p d True
      by (simp add: peek_next_non_whitespace_def Let_def split: list.splits) (metis list.inject)
  next
    case False
    then have "dropWhile is_space (rest_of s) = []" by (simp only: d) simp
    then show ?thesis using p False
      by (simp add: peek_next_non_whitespace_def Let_def del: dropWhile_eq_Nil_conv)
  qed
qed

definition starts_dot :: "string \<Rightarrow> bool" where
  "starts_dot r = (case r of [] \<Rightarrow> False | c # _ \<Rightarrow> c = CHR ''.'')"

definition starts_digit :: "string \<Rightarrow> bool" where
  "starts_digit r = (case r of [] \<Rightarrow> False | c # _ \<Rightarrow> is_digit c)"

lemma starts_simps [simp]:
  "starts_dot [] = False" "starts_dot (c # r) = (c = CHR ''.'')"
  "starts_digit [] = False" "starts_digit (c # r) = is_digit c"
  by (simp_all add: starts_dot_def starts_digit_def)

lemma current_is_dot:
  "lexer_ok s \<Longrightarrow> lx_current_char s = Some (CHR ''.'') \<longleftrightarrow> starts_dot (rest_of s)"
  by (cases "rest_of s") (simp_all add: current_char_rest)

lemma current_no_digit:
  "lexer_ok s \<Longrightarrow> no_digit (lx_current_char s) \<longleftrightarrow> \<not> starts_digit (rest_of s)"
  by (cases "rest_of s") (simp_all add: current_char_rest no_digit_def)

lemma peek_no_digit: "no_digit (lx_peek s 1) \<longleftrightarrow> \<not> starts_digit (tl (rest_of s))"
  unfolding peek_rest no_digit_def
  by (cases "rest_of s"; cases "tl (rest_of s)") auto

lemma dot_not_digit [simp]: "\<not> is_digit (CHR ''.'')"
  by (simp add: is_digit_def)

lemma lexer_ok_lc:
  "lexer_ok s \<Longrightarrow> rest_of s \<noteq> [] \<Longrightarrow>
     lx_line s = line_of (lx_text s) (lx_pos s) \<and> lx_col s = col_of (lx_text s) (lx_pos s)"
  by (cases "rest_of s") (auto dest: lexer_ok_line_col)

lemma py_or_Some [simp]: "n \<noteq> 0 \<Longrightarrow> py_or (Some n) d = n"
  by (simp add: py_or_def)

lemma py_or_None [simp]: "py_or None d = d"
  by (simp add: py_or_def)

text \<open>What \<open>number\<close> does on a text that starts with a dot.\<close>

lemma number_leading_dot:
  assumes ok: "lexer_ok s" and r: "rest_of s = CHR ''.'' # r"
  shows "number s =
     (if \<not> starts_digit r
      then Inl (LexicalError ''Invalid numeric constant: '.' not followed by digits''
                  (line_of (lx_text s) (lx_pos s)) (col_of (lx_text s) (lx_pos s)) (Some (CHR ''.'')))
      else Inr (Token ''NUMBER'' (Some (CHR ''.'' # takeWhile is_digit r))
                  (line_of (lx_text s) (lx_pos s)) (col_of (lx_text s) (lx_pos s)),
                (lx_advance ^^ Suc (length (takeWhile is_digit r))) s))"
proof -
  have cc: "lx_current_char s = Some (CHR ''.'')" using ok r by (simp add: current_is_dot)
  have lc: "lx_line s = line_of (lx_text s) (lx_pos s)" "lx_col s = col_of (lx_text s) (lx_pos s)"
    using lexer_ok_lc[OF ok] r by simp_all
  have ok1: "lexer_ok (lx_advance s)" using ok r by (rule lexer_ok_advance_rest)
  have r1: "rest_of (lx_advance s) = r" using r by simp
  have nd: "no_digit (lx_current_char (lx_advance s)) \<longleftrightarrow> \<not> starts_digit r"
    using current_no_digit[OF ok1] r1 by simp
  have dg: "number_digits (lx_advance s) ''.'' =
      (CHR ''.'' # takeWhile is_digit r, (lx_advance ^^ Suc (length (takeWhile is_digit r))) s)"
    using number_digits_spec[OF ok1, of "''.''"] r1 by (simp add: funpow_swap1)
  show ?thesis
    using cc nd dg lc by (simp add: number_def Let_def lx_error_def)
qed

text \<open>What \<open>number\<close> does on a text that starts with a digit.\<close>

lemma number_digit_start:
  assumes ok: "lexer_ok s" and d: "starts_digit (rest_of s)"
    and ds: "ds = takeWhile is_digit (rest_of s)" and r: "r = dropWhile is_digit (rest_of s)"
    and fr: "fr = takeWhile is_digit (tl r)"
    and n3: "n3 = length ds + 1 + length fr"
  shows "number s =
     (if starts_dot r then
        (if \<not> starts_digit (tl r)
         then Inl (LexicalError ''Invalid numeric constant: digits required after decimal point''
                     (line_of (lx_text s) (lx_pos s)) (col_of (lx_text s) (lx_pos s)) (Some (CHR ''.'')))
         else if starts_dot (dropWhile is_digit (tl r))
         then Inl (LexicalError ''Invalid numeric constant: multiple decimal points''
                     (line_of (lx_text s) (lx_pos s + n3)) (col_of (lx_text s) (lx_pos s + n3))
                     (Some (CHR ''.'')))
         else Inr (Token ''NUMBER'' (Some (ds @ ''.'' @ fr))
                     (line_of (lx_text s) (lx_pos s)) (col_of (lx_text s) (lx_pos s)),
                   (lx_advance ^^ n3) s))
      else Inr (Token ''NUMBER'' (Some ds)
                  (line_of (lx_text s) (lx_pos s)) (col_of (lx_text s) (lx_pos s)),
                (lx_advance ^^ length ds) s))"
proof -
  let ?s1 = "(lx_advance ^^ length ds) s"
  have ne: "rest_of s \<noteq> []" using d by auto
  have lc: "lx_line s = line_of (lx_text s) (lx_pos s)" "lx_col s = col_of (lx_text s) (lx_pos s)"
    using lexer_ok_lc[OF ok ne] by simp_all
  have nodot: "lx_current_char s \<noteq> Some (CHR ''.'')"
    using d ok by (cases "rest_of s") (auto simp: current_char_rest)
  have dg1: "number_digits s [] = (ds, ?s1)"
    using number_digits_spec[OF ok, of "[]"] ds by simp
  have ok1: "lexer_ok ?s1"
    using ok by (rule lexer_ok_funpow_rest) (simp add: ds length_takeWhile_le)
  have r1: "rest_of ?s1 = r" by (simp add: ds r dropWhile_eq_drop)
  have c1: "lx_current_char ?s1 = Some (CHR ''.'') \<longleftrightarrow> starts_dot r"
    using current_is_dot[OF ok1] r1 by simp
  show ?thesis
  proof (cases "starts_dot r")
    case False
    then show ?thesis using nodot dg1 c1 lc by (simp add: number_def Let_def)
  next
    case True
    then obtain r2 where r2: "r = CHR ''.'' # r2" by (cases r) auto
    let ?s2 = "lx_advance ?s1"
    have ok2: "lexer_ok ?s2" using ok1 r1 r2 by (intro lexer_ok_advance_rest[of ?s1 "CHR ''.''" r2]) simp_all
    have rr2: "rest_of ?s2 = r2" using r1 r2 by simp
    have c2: "no_digit (lx_current_char ?s2) \<longleftrightarrow> \<not> starts_digit r2"
      using current_no_digit[OF ok2] rr2 by simp
    show ?thesis
    proof (cases "starts_digit r2")
      case False
      then show ?thesis using nodot dg1 c1 c2 lc True r2
        by (simp add: number_def Let_def lx_error_def)
    next
      case dig: True
      let ?s3 = "(lx_advance ^^ length fr) ?s2"
      have frr: "fr = takeWhile is_digit r2" using fr r2 by simp
      have dg2: "number_digits ?s2 (ds @ ''.'') = (ds @ ''.'' @ fr, ?s3)"
        using number_digits_spec[OF ok2, of "ds @ ''.''"] rr2 frr by simp
      have "length fr \<le> length (rest_of ?s2)"
        unfolding rr2 frr by (rule length_takeWhile_le)
      with ok2 have ok3: "lexer_ok ?s3" by (rule lexer_ok_funpow_rest)
      have "rest_of ?s3 = drop (length fr) (rest_of ?s2)" by (rule rest_of_funpow)
      also have "\<dots> = dropWhile is_digit r2" unfolding rr2 frr by (simp only: dropWhile_eq_drop)
      finally have r3: "rest_of ?s3 = dropWhile is_digit r2" .
      have c3: "lx_current_char ?s3 = Some (CHR ''.'') \<longleftrightarrow> starts_dot (dropWhile is_digit r2)"
        using current_is_dot[OF ok3] r3 by simp
      have "n3 = length fr + Suc (length ds)" unfolding n3 by simp
      then have s3: "?s3 = (lx_advance ^^ n3) s"
        by (simp only: funpow_add o_apply funpow.simps)
      show ?thesis
      proof (cases "starts_dot (dropWhile is_digit r2)")
        case False
        then show ?thesis using nodot dg1 c1 c2 c3 dg2 lc True r2 dig s3
          by (simp add: number_def Let_def)
      next
        case dot3: True
        then have "rest_of ?s3 \<noteq> []" unfolding r3 by (metis starts_simps(1))
        from lexer_ok_lc[OF ok3 this]
        have lc3: "lx_line ?s3 = line_of (lx_text s) (lx_pos s + n3)"
          "lx_col ?s3 = col_of (lx_text s) (lx_pos s + n3)"
          unfolding s3 by simp_all
        show ?thesis using nodot dg1 c1 c2 c3 dg2 lc True r2 dig dot3 lc3
          by (simp add: number_def Let_def lx_error_def)
      qed
    qed
  qed
qed

lemma digit_not_special:
  assumes "is_digit c"
  shows "\<not> is_space c" "c \<noteq> CHR ''#''" "c \<noteq> CHR ''/''" "c \<noteq> CHR ''+''" "c \<noteq> CHR ''-''"
    "c \<noteq> CHR ''*''" "c \<noteq> CHR ''(''" "c \<noteq> CHR '')''" "c \<noteq> CHR ''>''" "c \<noteq> CHR ''<''"
    "c \<noteq> CHR ''!''" "c \<noteq> CHR ''=''" "c \<noteq> CHR ''.''"
  using assms by (auto simp: is_digit_def is_space_def)

lemma get_next_token_number:
  assumes "lx_current_char s = Some c"
    and "is_digit c \<or> (c = CHR ''.'' \<and> \<not> no_digit (lx_peek s 1))"
  shows "get_next_token s =
     (case number s of
        Inl e \<Rightarrow> Inl e
      | Inr (tok, s') \<Rightarrow>
          if peek_next_non_whitespace s' = Some (CHR ''.'')
          then Inl (lx_error s' ''Invalid numeric constant: unexpected '.' after number''
                      (Some (CHR ''.'')) (Some (tok_line tok)) (Some (tok_column tok)))
          else Inr (tok, s'))"
proof (cases "is_digit c")
  case True
  then show ?thesis using assms(1) digit_not_special[OF True]
    by (subst get_next_token.simps) simp
next
  case False
  then have "c = CHR ''.''" "\<not> no_digit (lx_peek s 1)" using assms(2) by auto
  then show ?thesis using assms(1)
    by (subst get_next_token.simps) (simp add: is_space_def)
qed

lemma get_next_token_bare_dot:
  assumes "lx_current_char s = Some (CHR ''.'')" and "no_digit (lx_peek s 1)"
  shows "get_next_token s =
     Inl (lx_error s ''Invalid character'' (Some (CHR ''.'')) (Some (lx_line s)) (Some (lx_col s)))"
  using assms
  by (subst get_next_token.simps) (simp add: is_space_def is_letter_def ascii_letters_def)

text \<open>The numeric literals: \<^verbatim>\<open>digit+ ('.' digit+)?\<close> and \<^verbatim>\<open>'.' digit+\<close>.\<close>

definition numeric_literal :: "string \<Rightarrow> bool" where
  "numeric_literal lit =
     (let ds = takeWhile is_digit lit; r = dropWhile is_digit lit
      in (ds \<noteq> [] \<and> r = []) \<or> (starts_dot r \<and> tl r \<noteq> [] \<and> list_all is_digit (tl r)))"

lemma space_not_digit: "is_space c \<Longrightarrow> \<not> is_digit c"
  by (auto simp: is_space_def is_digit_def)

lemma dot_not_space [simp]: "\<not> is_space (CHR ''.'')"
  by (simp add: is_space_def)

lemma spaces_dot_no_digit:
  "list_all is_space ws \<Longrightarrow> \<not> starts_digit (ws @ CHR ''.'' # rest)"
  by (cases ws) (simp_all add: space_not_digit)

lemma digits_split:
  "list_all is_digit xs \<Longrightarrow> \<not> starts_digit ys \<Longrightarrow>
     takeWhile is_digit (xs @ ys) = xs \<and> dropWhile is_digit (xs @ ys) = ys"
  by (cases ys) (simp_all add: list_all_iff takeWhile_append2 dropWhile_append2)

lemma spaces_split:
  "list_all is_space ws \<Longrightarrow> dropWhile is_space (ws @ CHR ''.'' # rest) = CHR ''.'' # rest"
  by (simp add: list_all_iff dropWhile_append2)

text \<open>After a literal of \<open>n\<close> characters, the lookahead finds a dot behind blanks.\<close>

lemma peek_after_literal:
  assumes ok: "lexer_ok s" and n: "drop n (rest_of s) = ws @ CHR ''.'' # rest"
    and ws: "list_all is_space ws"
  shows "peek_next_non_whitespace ((lx_advance ^^ n) s) = Some (CHR ''.'')"
proof -
  have "drop n (rest_of s) \<noteq> []" using n by simp
  then have "n < length (rest_of s)" by simp
  then have "lx_pos s + n \<le> length (lx_text s)" by (simp add: rest_of_def)
  then have "lx_pos ((lx_advance ^^ n) s) \<le> length (lx_text ((lx_advance ^^ n) s))" by simp
  from peek_next_non_whitespace_spec[OF this] show ?thesis
    using n spaces_split[OF ws, of rest] by simp
qed

lemma number_then_dot:
  assumes ok: "lexer_ok s" and cc: "lx_current_char s = Some c"
    and cond: "is_digit c \<or> (c = CHR ''.'' \<and> \<not> no_digit (lx_peek s 1))"
    and num: "number s = Inr (Token ''NUMBER'' v (line_of (lx_text s) (lx_pos s))
                               (col_of (lx_text s) (lx_pos s)), (lx_advance ^^ n) s)"
    and dr: "drop n (rest_of s) = ws @ CHR ''.'' # rest" and ws: "list_all is_space ws"
  shows "tokenize s = Inl (LexicalError ''Invalid numeric constant: unexpected '.' after number''
            (line_of (lx_text s) (lx_pos s)) (col_of (lx_text s) (lx_pos s)) (Some (CHR ''.'')))"
proof -
  have pk: "peek_next_non_whitespace ((lx_advance ^^ n) s) = Some (CHR ''.'')"
    using ok dr ws by (rule peek_after_literal)
  have "get_next_token s = Inl (LexicalError ''Invalid numeric constant: unexpected '.' after number''
            (line_of (lx_text s) (lx_pos s)) (col_of (lx_text s) (lx_pos s)) (Some (CHR ''.'')))"
    unfolding get_next_token_number[OF cc cond] num using pk by (simp add: lx_error_def)
  then show ?thesis by (rule tokenize_fault)
qed

lemma numeric_literal_cases:
  assumes "numeric_literal lit"
  obtains (int) "lit \<noteq> []" "list_all is_digit lit"
  | (frac) ds fr where "lit = ds @ CHR ''.'' # fr" "list_all is_digit ds" "fr \<noteq> []" "list_all is_digit fr"
proof -
  let ?ds = "takeWhile is_digit lit" and ?r = "dropWhile is_digit lit"
  have split: "lit = ?ds @ ?r" by simp
  have dsd: "list_all is_digit ?ds" by (auto simp: list_all_iff dest: set_takeWhileD)
  from assms consider "?ds \<noteq> []" "?r = []" | "starts_dot ?r" "tl ?r \<noteq> []" "list_all is_digit (tl ?r)"
    by (auto simp: numeric_literal_def Let_def)
  then show ?thesis
  proof cases
    case 1
    then have "lit = ?ds" using split by (metis append_Nil2)
    then show ?thesis using 1 dsd int by metis
  next
    case 2
    then obtain fr where "?r = CHR ''.'' # fr" by (cases ?r) auto
    then show ?thesis using 2 dsd split frac[of ?ds fr] by (metis list.sel(3))
  qed
qed

lemma dot_after_integer:
  assumes ok: "lexer_ok s" and shape: "rest_of s = lit @ ws @ CHR ''.'' # rest"
    and ne: "lit \<noteq> []" and dg: "list_all is_digit lit"
    and ws: "list_all is_space ws" and wne: "ws \<noteq> []"
  shows "tokenize s = Inl (LexicalError ''Invalid numeric constant: unexpected '.' after number''
            (line_of (lx_text s) (lx_pos s)) (col_of (lx_text s) (lx_pos s)) (Some (CHR ''.'')))"
proof -
  obtain c l0 where l0: "lit = c # l0" using ne by (cases lit) auto
  then have c: "is_digit c" using dg by simp
  have cc: "lx_current_char s = Some c" using ok shape l0 by (simp add: current_char_rest)
  have sd: "starts_digit (rest_of s)" using shape l0 c by simp
  have sp: "takeWhile is_digit (rest_of s) = lit \<and> dropWhile is_digit (rest_of s) = ws @ CHR ''.'' # rest"
    unfolding shape using dg spaces_dot_no_digit[OF ws] by (rule digits_split)
  obtain w w0 where w: "ws = w # w0" "is_space w" using wne ws by (cases ws) auto
  have nd: "\<not> starts_dot (ws @ CHR ''.'' # rest)" using w by auto
  have num: "number s = Inr (Token ''NUMBER'' (Some lit) (line_of (lx_text s) (lx_pos s))
                               (col_of (lx_text s) (lx_pos s)), (lx_advance ^^ length lit) s)"
    using number_digit_start[OF ok sd refl refl refl refl] sp nd by simp
  have dr: "drop (length lit) (rest_of s) = ws @ CHR ''.'' # rest" unfolding shape by simp
  show ?thesis using ok cc _ num dr ws by (rule number_then_dot) (simp add: c)
qed

lemma dot_after_leading_dot_literal:
  assumes ok: "lexer_ok s" and shape: "rest_of s = (CHR ''.'' # fr) @ ws @ CHR ''.'' # rest"
    and ne: "fr \<noteq> []" and dg: "list_all is_digit fr" and ws: "list_all is_space ws"
  shows "tokenize s = Inl (LexicalError ''Invalid numeric constant: unexpected '.' after number''
            (line_of (lx_text s) (lx_pos s)) (col_of (lx_text s) (lx_pos s)) (Some (CHR ''.'')))"
proof -
  let ?r = "fr @ ws @ CHR ''.'' # rest"
  have r: "rest_of s = CHR ''.'' # ?r" using shape by simp
  have cc: "lx_current_char s = Some (CHR ''.'')" using ok r by (simp add: current_char_rest)
  obtain f f0 where f: "fr = f # f0" "is_digit f" using ne dg by (cases fr) auto
  then have sd: "starts_digit ?r" by simp
  have pk: "\<not> no_digit (lx_peek s 1)" unfolding peek_no_digit r using sd by simp
  have tw: "takeWhile is_digit ?r = fr"
    using digits_split[OF dg spaces_dot_no_digit[OF ws]] by simp
  have num: "number s = Inr (Token ''NUMBER'' (Some (CHR ''.'' # fr)) (line_of (lx_text s) (lx_pos s))
                               (col_of (lx_text s) (lx_pos s)), (lx_advance ^^ Suc (length fr)) s)"
    using number_leading_dot[OF ok r] sd tw by simp
  have dr: "drop (Suc (length fr)) (rest_of s) = ws @ CHR ''.'' # rest" unfolding r by simp
  show ?thesis using ok cc _ num dr ws by (rule number_then_dot) (use pk in simp)
qed

lemma dot_after_fraction:
  assumes ok: "lexer_ok s" and shape: "rest_of s = (ds @ CHR ''.'' # fr) @ ws @ CHR ''.'' # rest"
    and dne: "ds \<noteq> []" and ddg: "list_all is_digit ds"
    and ne: "fr \<noteq> []" and dg: "list_all is_digit fr" and ws: "list_all is_space ws"
  shows "tokenize s =
     Inl (if ws = []
          then LexicalError ''Invalid numeric constant: multiple decimal points''
                 (line_of (lx_text s) (lx_pos s + length (ds @ CHR ''.'' # fr)))
                 (col_of (lx_text s) (lx_pos s + length (ds @ CHR ''.'' # fr))) (Some (CHR ''.''))
          else LexicalError ''Invalid numeric constant: unexpected '.' after number''
                 (line_of (lx_text s) (lx_pos s)) (col_of (lx_text s) (lx_pos s)) (Some (CHR ''.'')))"
proof -
  let ?tail = "ws @ CHR ''.'' # rest"
  let ?r = "CHR ''.'' # fr @ ?tail"
  have rs: "rest_of s = ds @ ?r" using shape by simp
  obtain c d0 where d0: "ds = c # d0" "is_digit c" using dne ddg by (cases ds) auto
  have cc: "lx_current_char s = Some c" using ok rs d0 by (simp add: current_char_rest)
  have sd: "starts_digit (rest_of s)" using rs d0 by simp
  have sp: "takeWhile is_digit (rest_of s) = ds \<and> dropWhile is_digit (rest_of s) = ?r"
    unfolding rs using ddg by (rule digits_split) simp
  obtain f f0 where f: "fr = f # f0" "is_digit f" using ne dg by (cases fr) auto
  have sp2: "takeWhile is_digit (fr @ ?tail) = fr \<and> dropWhile is_digit (fr @ ?tail) = ?tail"
    using dg spaces_dot_no_digit[OF ws] by (rule digits_split)
  have sdt: "starts_digit (fr @ ?tail)" using f by simp
  have len: "length ds + 1 + length fr = length (ds @ CHR ''.'' # fr)" by simp
  have tw1: "takeWhile is_digit (rest_of s) = ds" and dw1: "dropWhile is_digit (rest_of s) = ?r"
    using sp by simp_all
  have tw2: "takeWhile is_digit (fr @ ?tail) = fr" and dw2: "dropWhile is_digit (fr @ ?tail) = ?tail"
    using sp2 by simp_all
  have nds: "number s =
     (if starts_dot ?tail
      then Inl (LexicalError ''Invalid numeric constant: multiple decimal points''
                  (line_of (lx_text s) (lx_pos s + (length ds + 1 + length fr)))
                  (col_of (lx_text s) (lx_pos s + (length ds + 1 + length fr))) (Some (CHR ''.'')))
      else Inr (Token ''NUMBER'' (Some (ds @ ''.'' @ fr))
                  (line_of (lx_text s) (lx_pos s)) (col_of (lx_text s) (lx_pos s)),
                (lx_advance ^^ (length ds + 1 + length fr)) s))"
    unfolding number_digit_start[OF ok sd refl refl refl refl] tw1 dw1 list.sel tw2 dw2
    using sdt by (simp only: starts_simps if_True if_False not_True_eq_False simp_thms)
  show ?thesis
  proof (cases "ws = []")
    case True
    then have "starts_dot ?tail" by simp
    then have "number s = Inl (LexicalError ''Invalid numeric constant: multiple decimal points''
                 (line_of (lx_text s) (lx_pos s + length (ds @ CHR ''.'' # fr)))
                 (col_of (lx_text s) (lx_pos s + length (ds @ CHR ''.'' # fr))) (Some (CHR ''.'')))"
      using nds by simp
    then have "get_next_token s = Inl (LexicalError ''Invalid numeric constant: multiple decimal points''
                 (line_of (lx_text s) (lx_pos s + length (ds @ CHR ''.'' # fr)))
                 (col_of (lx_text s) (lx_pos s + length (ds @ CHR ''.'' # fr))) (Some (CHR ''.'')))"
      using get_next_token_number[OF cc] d0(2) by simp
    then show ?thesis using True by (simp add: tokenize_fault)
  next
    case False
    then obtain w w0 where w: "ws = w # w0" "is_space w" using ws by (cases ws) auto
    then have nd: "\<not> starts_dot ?tail" by auto
    have num: "number s = Inr (Token ''NUMBER'' (Some (ds @ ''.'' @ fr)) (line_of (lx_text s) (lx_pos s))
                 (col_of (lx_text s) (lx_pos s)), (lx_advance ^^ (length ds + 1 + length fr)) s)"
      using nds nd by simp
    have dr: "drop (length ds + 1 + length fr) (rest_of s) = ?tail" unfolding rs by simp
    have "tokenize s = Inl (LexicalError ''Invalid numeric constant: unexpected '.' after number''
            (line_of (lx_text s) (lx_pos s)) (col_of (lx_text s) (lx_pos s)) (Some (CHR ''.'')))"
      using ok cc _ num dr ws by (rule number_then_dot) (simp add: d0)
    then show ?thesis using False by simp
  qed
qed

section \<open>Recursive-descent parser (analisador\_sintatico.py)\<close>

subsection \<open>Data model\<close>

text \<open>\<^verbatim>\<open>class Node\<close>: a label and the ordered children.\<close>

datatype node = Node (label: string) (children: "node list")

definition add_child :: "node \<Rightarrow> node \<Rightarrow> node" where
  "add_child n c = Node (label n) (children n @ [c])"

text \<open>\<^verbatim>\<open>node.children.pop()\<close>: the last child and the node without it; Python raises
  \<^verbatim>\<open>IndexError\<close> on an empty list.\<close>

definition pop_child :: "node \<Rightarrow> (node \<times> node) option" where
  "pop_child n =
     (case rev (children n) of
        [] \<Rightarrow> None
      | c # cs \<Rightarrow> Some (c, Node (label n) (rev cs)))"

text \<open>What parsing can raise: \<^verbatim>\<open>SyntaxError_(message, token)\<close>, and the \<^verbatim>\<open>IndexError\<close>
  of an empty token list or an empty child list.\<close>

datatype parse_error = SyntaxError string token | IndexError

text \<open>The parser's fields. The graph and its node counter only serve the rendering of
  the finished tree and are left out.\<close>

record parser =
  ps_tokens :: "token list"
  ps_pos :: nat
  ps_current_token :: token

type_synonym 'a result = "parse_error + ('a \<times> parser)"

text \<open>\<^verbatim>\<open>Parser.__init__\<close>, from the token list that \<^verbatim>\<open>lexer.tokenize()\<close> returned.\<close>

definition Parser :: "token list \<Rightarrow> parse_error + parser" where
  "Parser toks =
     (case toks of
        [] \<Rightarrow> Inl IndexError
      | t # _ \<Rightarrow> Inr \<lparr>ps_tokens = toks, ps_pos = 0, ps_current_token = t\<rparr>)"

subsection \<open>Utilities\<close>

definition ps_advance :: "parser \<Rightarrow> parser" where
  "ps_advance p =
     (if ps_pos p < length (ps_tokens p) - 1
      then p\<lparr>ps_pos := ps_pos p + 1, ps_current_token := ps_tokens p ! (ps_pos p + 1)\<rparr>
      else p)"

text \<open>How an f-string prints an optional lexeme.\<close>

definition str_opt :: "string option \<Rightarrow> string" where
  "str_opt v = (case v of None \<Rightarrow> ''None'' | Some x \<Rightarrow> x)"

definition cur_type :: "parser \<Rightarrow> string" where
  "cur_type p = tok_type (ps_current_token p)"

definition eat :: "string \<Rightarrow> parser \<Rightarrow> node result" where
  "eat token_type p =
     (if cur_type p = token_type
      then Inr (Node (case tok_value (ps_current_token p) of
                        None \<Rightarrow> token_type
                      | Some v \<Rightarrow> if v = [] then token_type else token_type @ ''('' @ v @ '')'') [],
                ps_advance p)
      else Inl (SyntaxError (''Esperado '' @ token_type @ '', encontrado '' @ cur_type p)
                  (ps_current_token p)))"

definition peek_next_type :: "parser \<Rightarrow> nat \<Rightarrow> string option" where
  "peek_next_type p offset =
     (let idx = ps_pos p + offset
      in if idx < length (ps_tokens p) then Some (tok_type (ps_tokens p ! idx)) else None)"

definition peek_is_colon :: "parser \<Rightarrow> bool" where
  "peek_is_colon p =
     (if ps_pos p + 1 < length (ps_tokens p)
      then tok_type (ps_tokens p ! (ps_pos p + 1)) = ''COLON''
      else False)"

text \<open>Sequencing of parsing steps: a fault ends the parse, \<open>None\<close> (recursion budget used
  up) likewise.\<close>

definition bind :: "'a result option \<Rightarrow> ('a \<Rightarrow> parser \<Rightarrow> 'b result option) \<Rightarrow> 'b result option" where
  "bind m f = (case m of None \<Rightarrow> None | Some (Inl e) \<Rightarrow> Some (Inl e) | Some (Inr (a, p)) \<Rightarrow> f a p)"

lemma bind_cong [fundef_cong]:
  "m = m' \<Longrightarrow> (\<And>a p. m' = Some (Inr (a, p)) \<Longrightarrow> f a p = f' a p) \<Longrightarrow> bind m f = bind m' f'"
  by (auto simp: bind_def split: option.splits sum.splits)

text \<open>The accented letters of the messages, in UTF-8.\<close>

definition a_acute :: string where "a_acute = [CHR 0xC3, CHR 0xA1]"
definition a_tilde :: string where "a_tilde = [CHR 0xC3, CHR 0xA3]"
definition c_cedil :: string where "c_cedil = [CHR 0xC3, CHR 0xA7]"
definition i_acute :: string where "i_acute = [CHR 0xC3, CHR 0xAD]"
definition o_acute :: string where "o_acute = [CHR 0xC3, CHR 0xB3]"
definition u_acute :: string where "u_acute = [CHR 0xC3, CHR 0xBA]"

subsection \<open>Declarations\<close>

definition parse_decl :: "parser \<Rightarrow> node result" where
  "parse_decl p =
     (case eat ''IDENTIFIER'' p of Inl e \<Rightarrow> Inl e | Inr (a, p1) \<Rightarrow>
      case eat ''COLON'' p1 of Inl e \<Rightarrow> Inl e | Inr (b, p2) \<Rightarrow>
      if cur_type p2 \<in> {''INT'', ''FLOAT''}
      then (case eat (cur_type p2) p2 of Inl e \<Rightarrow> Inl e
            | Inr (c, p3) \<Rightarrow> Inr (Node ''Decl'' [a, b, c], p3))
      else Inl (SyntaxError (''Tipo esperado (INT ou FLOAT) ap'' @ o_acute @ ''s ':' na declara''
                              @ c_cedil @ a_tilde @ ''o'') (ps_current_token p2)))"

lemma ps_advance_tokens [simp]: "ps_tokens (ps_advance p) = ps_tokens p"
  by (simp add: ps_advance_def)

lemma ps_advance_pos:
  "ps_pos (ps_advance p) = (if ps_pos p < length (ps_tokens p) - 1 then Suc (ps_pos p) else ps_pos p)"
  by (simp add: ps_advance_def)

lemma ps_advance_mono: "ps_pos p \<le> ps_pos (ps_advance p)"
  by (simp add: ps_advance_pos)

lemma eat_Inr: "eat t p = Inr (n, p') \<Longrightarrow> p' = ps_advance p \<and> cur_type p = t"
  by (auto simp: eat_def split: if_splits)

lemma parse_decl_progress:
  assumes "parse_decl p = Inr (n, p')" and "peek_is_colon p"
  shows "ps_tokens p' = ps_tokens p \<and> ps_pos p < ps_pos p'"
proof -
  from assms(1) obtain a b c where
    p': "p' = ps_advance (ps_advance (ps_advance p))"
    by (auto simp: parse_decl_def split: sum.splits if_splits dest!: eat_Inr)
  have "ps_pos p + 1 < length (ps_tokens p)" using assms(2) by (auto simp: peek_is_colon_def split: if_splits)
  then have "ps_pos (ps_advance p) = Suc (ps_pos p)" by (simp add: ps_advance_pos)
  moreover have "ps_pos (ps_advance p) \<le> ps_pos (ps_advance (ps_advance (ps_advance p)))"
    using ps_advance_mono[of "ps_advance p"] ps_advance_mono[of "ps_advance (ps_advance p)"] by simp
  ultimately show ?thesis using p' by simp
qed

text \<open>The \<^verbatim>\<open>while\<close> loop of \<^verbatim>\<open>parse_decls\<close>, with the node built so far.\<close>

function parse_decls_loop :: "node \<Rightarrow> parser \<Rightarrow> node result" where
  "parse_decls_loop node p =
     (if cur_type p \<notin> {''FIMDECLS'', ''EOF''} then
        (if cur_type p = ''IDENTIFIER'' \<and> peek_is_colon p
         then (case parse_decl p of
                 Inl e \<Rightarrow> Inl e
               | Inr (d, p') \<Rightarrow> parse_decls_loop (add_child node d) p')
         else Inl (SyntaxError (''Esperado declara'' @ c_cedil @ a_tilde @ ''o de vari'' @ a_acute
                     @ ''vel no formato 'nome:TIPO' ou 'FIMDECLS' para terminar DECLS'')
                     (ps_current_token p)))
      else Inr (node, p))"
  by pat_completeness auto
termination
proof (relation "measure (\<lambda>(n, p). length (ps_tokens p) - ps_pos p)", goal_cases)
  case 1
  show ?case by simp
next
  case (2 node p x2 d p')
  then have "parse_decl p = Inr (d, p')" "peek_is_colon p" by simp_all
  from parse_decl_progress[OF this] 2 show ?case
    by (auto simp: peek_is_colon_def split: if_splits)
qed

declare parse_decls_loop.simps [simp del]

definition parse_decls :: "parser \<Rightarrow> node result" where
  "parse_decls p = parse_decls_loop (Node ''Decls'' []) p"

lemma tokenize_loop_ends_in_EOF:
  "tokenize_loop s acc = Inr toks \<Longrightarrow> toks \<noteq> [] \<and> tok_type (last toks) = ''EOF''"
proof (induction s acc rule: tokenize_loop.induct)
  case (1 s tokens)
  from "1.prems" obtain tok s' where g: "get_next_token s = Inr (tok, s')"
    by (subst (asm) tokenize_loop.simps) (auto split: sum.splits)
  show ?case
  proof (cases "tok_type tok = ''EOF''")
    case True
    then have "toks = tokens @ [tok]"
      using "1.prems" g by (subst (asm) tokenize_loop.simps) simp
    then show ?thesis using True by simp
  next
    case False
    then have "tokenize_loop s' (tokens @ [tok]) = Inr toks"
      using "1.prems" g by (subst (asm) tokenize_loop.simps) simp
    then show ?thesis using "1.IH"[OF g refl False] by simp
  qed
qed

text \<open>The parser's index is inside the token list and the current token is the one
  under it.\<close>

definition parser_ok :: "parser \<Rightarrow> bool" where
  "parser_ok p \<longleftrightarrow> ps_pos p < length (ps_tokens p) \<and> ps_current_token p = ps_tokens p ! ps_pos p"

lemma parser_ok_Parser: "Parser toks = Inr p \<Longrightarrow> parser_ok p"
  by (cases toks) (auto simp: Parser_def parser_ok_def)

lemma parser_ok_advance: "parser_ok p \<Longrightarrow> parser_ok (ps_advance p)"
  by (auto simp: parser_ok_def ps_advance_def)

subsection \<open>Commands and expressions\<close>

text \<open>The mutually recursive rules of the parser, one constructor for each method and
  for each \<^verbatim>\<open>while\<close> loop (which carries the node built so far).\<close>

datatype rule =
    R_comandos | R_comandos_loop node | R_comando | R_atribuicao | R_if
  | R_expressao_logica | R_expressao_logica_loop node | R_expressao_relacional
  | R_expressao_aritmetica | R_expressao_aritmetica_loop node
  | R_termo | R_termo_loop node | R_fator

text \<open>One step of a binary-operator loop: \<^verbatim>\<open>op = Node(label); self.advance();
  op.add_child(node.children.pop()); op.add_child(<operand>); node.add_child(op)\<close>.\<close>

definition rewrap ::
  "string \<Rightarrow> node \<Rightarrow> parser \<Rightarrow> (parser \<Rightarrow> node result option) \<Rightarrow>
     (node \<Rightarrow> parser \<Rightarrow> node result option) \<Rightarrow> node result option" where
  "rewrap op_label node p operand continue =
     (let p1 = ps_advance p in
      case pop_child node of
        None \<Rightarrow> Some (Inl IndexError)
      | Some (left, node') \<Rightarrow>
          bind (operand p1) (\<lambda>right p2. continue (add_child node' (Node op_label [left, right])) p2))"

text \<open>The rules. The first argument bounds the depth of the calls (a loop iteration
  counts as one call); \<open>None\<close> means that the bound was reached before the rule returned.\<close>

primrec parse_rule :: "nat \<Rightarrow> rule \<Rightarrow> parser \<Rightarrow> node result option" where
  "parse_rule 0 r p = None"
| "parse_rule (Suc n) r p =
    (case r of
       R_comandos \<Rightarrow> parse_rule n (R_comandos_loop (Node ''Comandos'' [])) p
     | R_comandos_loop node \<Rightarrow>
         (if cur_type p \<notin> {''FIMPROG'', ''FIMBLOCO'', ''FIMDECLS'', ''EOF''}
          then bind (parse_rule n R_comando p)
                 (\<lambda>c p1. parse_rule n (R_comandos_loop (add_child node c)) p1)
          else Some (Inr (node, p)))
     | R_comando \<Rightarrow>
         (let ttype = cur_type p in
          if ttype = ''LEIA'' then
            bind (Some (eat ''LEIA'' p)) (\<lambda>a p1.
            bind (Some (eat ''IDENTIFIER'' p1)) (\<lambda>b p2.
            Some (Inr (Node ''Comando'' [a, b], p2))))
          else if ttype = ''ESCREVA'' then
            bind (Some (eat ''ESCREVA'' p)) (\<lambda>a p1.
            bind (Some (eat ''LPAREN'' p1)) (\<lambda>b p2.
            if cur_type p2 \<in> {''IDENTIFIER'', ''NUMBER''} then
              bind (Some (eat (cur_type p2) p2)) (\<lambda>c p3.
              bind (Some (eat ''RPAREN'' p3)) (\<lambda>d p4.
              Some (Inr (Node ''Comando'' [a, b, c, d], p4))))
            else Some (Inl (SyntaxError (''Esperado identificador ou n'' @ u_acute
                              @ ''mero dentro de ESCREVA(...)'') (ps_current_token p2)))))
          else if ttype = ''SE'' then
            bind (parse_rule n R_if p) (\<lambda>a p1. Some (Inr (Node ''Comando'' [a], p1)))
          else if ttype = ''IDENTIFIER'' then
            (let next_type = peek_next_type p 1 in
             if next_type = Some ''ASSIGN''
             then bind (parse_rule n R_atribuicao p) (\<lambda>a p1. Some (Inr (Node ''Comando'' [a], p1)))
             else Some (Inl (SyntaxError (''Esperado '=' (ASSIGN) ap'' @ o_acute
                               @ ''s identificador no in'' @ i_acute @ ''cio do comando, encontrado ''
                               @ str_opt next_type) (ps_current_token p))))
          else Some (Inl (SyntaxError (''Comando inv'' @ a_acute @ ''lido'') (ps_current_token p))))
     | R_atribuicao \<Rightarrow>
         bind (Some (eat ''IDENTIFIER'' p)) (\<lambda>a p1.
         bind (Some (eat ''ASSIGN'' p1)) (\<lambda>b p2.
         bind (parse_rule n R_expressao_logica p2) (\<lambda>c p3.
         Some (Inr (Node ''Atribuicao'' [a, b, c], p3)))))
     | R_if \<Rightarrow>
         bind (Some (eat ''SE'' p)) (\<lambda>a p1.
         bind (parse_rule n R_expressao_logica p1) (\<lambda>b p2.
         bind (Some (eat ''ENTAO'' p2)) (\<lambda>c p3.
         bind (Some (eat ''BLOCO'' p3)) (\<lambda>d p4.
         bind (parse_rule n R_comandos p4) (\<lambda>e p5.
         bind (Some (eat ''FIMBLOCO'' p5)) (\<lambda>f p6.
         Some (Inr (Node ''Condicional'' [a, b, c, d, e, f], p6))))))))
     | R_expressao_logica \<Rightarrow>
         bind (parse_rule n R_expressao_relacional p) (\<lambda>a p1.
         parse_rule n (R_expressao_logica_loop (Node ''ExpressaoLogica'' [a])) p1)
     | R_expressao_logica_loop node \<Rightarrow>
         (if cur_type p \<in> {''E'', ''OU''}
          then rewrap (cur_type p) node p (parse_rule n R_expressao_relacional)
                 (\<lambda>node'. parse_rule n (R_expressao_logica_loop node'))
          else Some (Inr (node, p)))
     | R_expressao_relacional \<Rightarrow>
         bind (parse_rule n R_expressao_aritmetica p) (\<lambda>a p1.
         (let node = Node ''ExpressaoRelacional'' [a] in
          if cur_type p1 \<in> {''GT'', ''LT'', ''GE'', ''LE'', ''EQ'', ''NE''}
          then rewrap (str_opt (tok_value (ps_current_token p1))) node p1
                 (parse_rule n R_expressao_aritmetica) (\<lambda>node' p3. Some (Inr (node', p3)))
          else Some (Inr (node, p1))))
     | R_expressao_aritmetica \<Rightarrow>
         bind (parse_rule n R_termo p) (\<lambda>a p1.
         parse_rule n (R_expressao_aritmetica_loop (Node ''ExpressaoAritmetica'' [a])) p1)
     | R_expressao_aritmetica_loop node \<Rightarrow>
         (if cur_type p \<in> {''PLUS'', ''MINUS''}
          then rewrap (str_opt (tok_value (ps_current_token p))) node p (parse_rule n R_termo)
                 (\<lambda>node'. parse_rule n (R_expressao_aritmetica_loop node'))
          else Some (Inr (node, p)))
     | R_termo \<Rightarrow>
         bind (parse_rule n R_fator p) (\<lambda>a p1. parse_rule n (R_termo_loop (Node ''Termo'' [a])) p1)
     | R_termo_loop node \<Rightarrow>
         (if cur_type p \<in> {''MUL'', ''DIV''}
          then rewrap (str_opt (tok_value (ps_current_token p))) node p (parse_rule n R_fator)
                 (\<lambda>node'. parse_rule n (R_termo_loop node'))
          else Some (Inr (node, p)))
     | R_fator \<Rightarrow>
         (if cur_type p \<in> {''NUMBER'', ''IDENTIFIER''} then
            Some (Inr (Node (cur_type p @ ''('' @ str_opt (tok_value (ps_current_token p)) @ '')'') [],
                       ps_advance p))
          else if cur_type p = ''LPAREN'' then
            bind (Some (eat ''LPAREN'' p)) (\<lambda>a p1.
            bind (parse_rule n R_expressao_logica p1) (\<lambda>b p2.
            bind (Some (eat ''RPAREN'' p2)) (\<lambda>c p3.
            Some (Inr (Node ''Group'' [a, b, c], p3)))))
          else Some (Inl (SyntaxError (''Fator inesperado na express'' @ a_tilde @ ''o'')
                            (ps_current_token p)))))"

declare parse_rule.simps(2) [simp del]

definition parse_comandos :: "nat \<Rightarrow> parser \<Rightarrow> node result option" where
  "parse_comandos n p = parse_rule n R_comandos p"

definition parse_comando :: "nat \<Rightarrow> parser \<Rightarrow> node result option" where
  "parse_comando n p = parse_rule n R_comando p"

definition parse_atribuicao :: "nat \<Rightarrow> parser \<Rightarrow> node result option" where
  "parse_atribuicao n p = parse_rule n R_atribuicao p"

definition parse_if :: "nat \<Rightarrow> parser \<Rightarrow> node result option" where
  "parse_if n p = parse_rule n R_if p"

definition parse_expressao_logica :: "nat \<Rightarrow> parser \<Rightarrow> node result option" where
  "parse_expressao_logica n p = parse_rule n R_expressao_logica p"

definition parse_expressao_relacional :: "nat \<Rightarrow> parser \<Rightarrow> node result option" where
  "parse_expressao_relacional n p = parse_rule n R_expressao_relacional p"

definition parse_expressao_aritmetica :: "nat \<Rightarrow> parser \<Rightarrow> node result option" where
  "parse_expressao_aritmetica n p = parse_rule n R_expressao_aritmetica p"

definition parse_termo :: "nat \<Rightarrow> parser \<Rightarrow> node result option" where
  "parse_termo n p = parse_rule n R_termo p"

definition parse_fator :: "nat \<Rightarrow> parser \<Rightarrow> node result option" where
  "parse_fator n p = parse_rule n R_fator p"

text \<open>\<^verbatim>\<open>parse_programa\<close>; building and rendering the graph and the final \<^verbatim>\<open>print\<close> act on
  the finished tree only and are left out.\<close>

definition parse_programa :: "nat \<Rightarrow> parser \<Rightarrow> node result option" where
  "parse_programa n p =
     bind (Some (eat ''INICIO'' p)) (\<lambda>a p1.
     bind (Some (eat ''DECLS'' p1)) (\<lambda>b p2.
     bind (Some (parse_decls p2)) (\<lambda>c p3.
     bind (Some (eat ''FIMDECLS'' p3)) (\<lambda>d p4.
     bind (Some (eat ''CODIGO'' p4)) (\<lambda>e p5.
     bind (parse_comandos n p5) (\<lambda>f p6.
     bind (Some (eat ''FIMPROG'' p6)) (\<lambda>g p7.
     Some (Inr (Node ''Programa'' [a, b, c, d, e, f, g], p7)))))))))"

lemmas parse_rule_numeral = parse_rule.simps(2) [of "pred_numeral k" for k, folded numeral_eq_Suc]

lemmas parser_eval =
  parse_rule_numeral parse_rule.simps rewrap_def bind_def eat_def cur_type_def ps_advance_def
  peek_next_type_def peek_is_colon_def pop_child_def add_child_def str_opt_def Parser_def
  parse_comandos_def parse_comando_def parse_atribuicao_def parse_if_def parse_expressao_logica_def
  parse_expressao_relacional_def parse_expressao_aritmetica_def parse_termo_def parse_fator_def
  parse_programa_def parse_decls_def parse_decls_loop.simps parse_decl_def Let_def

text \<open>The tree that a rule builds for a text: the scanner's tokens go to a new parser,
  the rule runs, and the tree (or the fault) is kept.\<close>

definition tree_of :: "(parser \<Rightarrow> node result option) \<Rightarrow> string \<Rightarrow> (parse_error + node) option" where
  "tree_of rule_fn txt =
     (case tokenize (Lexer txt) of
        Inl e \<Rightarrow> None
      | Inr toks \<Rightarrow>
          (case Parser toks of
             Inl e \<Rightarrow> Some (Inl e)
           | Inr p \<Rightarrow> map_option (map_sum id fst) (rule_fn p)))"

lemma tokens_2_plus_3_times_4:
  "tokenize (Lexer ''2+3*4'') =
    Inr [Token ''NUMBER'' (Some ''2'') 1 1, Token ''PLUS'' (Some ''+'') 1 2,
         Token ''NUMBER'' (Some ''3'') 1 3, Token ''MUL'' (Some ''*'') 1 4,
         Token ''NUMBER'' (Some ''4'') 1 5, Token ''EOF'' None 1 5]"
  by (simp add: lexer_eval)

lemma tokens_a_minus_b_minus_c:
  "tokenize (Lexer ''a-b-c'') =
    Inr [Token ''IDENTIFIER'' (Some ''a'') 1 1, Token ''MINUS'' (Some ''-'') 1 2,
         Token ''IDENTIFIER'' (Some ''b'') 1 3, Token ''MINUS'' (Some ''-'') 1 4,
         Token ''IDENTIFIER'' (Some ''c'') 1 5, Token ''EOF'' None 1 5]"
  by (simp add: lexer_eval)

lemma tokens_a_lt_b_lt_c:
  "tokenize (Lexer ''a<b<c'') =
    Inr [Token ''IDENTIFIER'' (Some ''a'') 1 1, Token ''LT'' (Some ''<'') 1 2,
         Token ''IDENTIFIER'' (Some ''b'') 1 3, Token ''LT'' (Some ''<'') 1 4,
         Token ''IDENTIFIER'' (Some ''c'') 1 5, Token ''EOF'' None 1 5]"
  by (simp add: lexer_eval)

lemma tokens_assign_chain:
  "tokenize (Lexer ''inicio decls fimdecls codigo x = a<b<c fimprog'') =
    Inr [Token ''INICIO'' (Some ''inicio'') 1 1, Token ''DECLS'' (Some ''decls'') 1 8,
         Token ''FIMDECLS'' (Some ''fimdecls'') 1 14, Token ''CODIGO'' (Some ''codigo'') 1 23,
         Token ''IDENTIFIER'' (Some ''x'') 1 30, Token ''ASSIGN'' (Some ''='') 1 32,
         Token ''IDENTIFIER'' (Some ''a'') 1 34, Token ''LT'' (Some ''<'') 1 35,
         Token ''IDENTIFIER'' (Some ''b'') 1 36, Token ''LT'' (Some ''<'') 1 37,
         Token ''IDENTIFIER'' (Some ''c'') 1 38, Token ''FIMPROG'' (Some ''fimprog'') 1 40,
         Token ''EOF'' None 1 46]"
  by (simp add: lexer_eval)

lemma tokens_paren_chain:
  "tokenize (Lexer ''inicio decls fimdecls codigo x = (a<b<c) fimprog'') =
    Inr [Token ''INICIO'' (Some ''inicio'') 1 1, Token ''DECLS'' (Some ''decls'') 1 8,
         Token ''FIMDECLS'' (Some ''fimdecls'') 1 14, Token ''CODIGO'' (Some ''codigo'') 1 23,
         Token ''IDENTIFIER'' (Some ''x'') 1 30, Token ''ASSIGN'' (Some ''='') 1 32,
         Token ''LPAREN'' (Some ''('') 1 34,
         Token ''IDENTIFIER'' (Some ''a'') 1 35, Token ''LT'' (Some ''<'') 1 36,
         Token ''IDENTIFIER'' (Some ''b'') 1 37, Token ''LT'' (Some ''<'') 1 38,
         Token ''IDENTIFIER'' (Some ''c'') 1 39, Token ''RPAREN'' (Some '')'') 1 40,
         Token ''FIMPROG'' (Some ''fimprog'') 1 42, Token ''EOF'' None 1 48]"
  by (simp add: lexer_eval)


text \<open>From \<open>p\<close> to \<open>p'\<close> the parser only moved forward over the same tokens.\<close>

definition steps :: "parser \<Rightarrow> parser \<Rightarrow> bool" where
  "steps p p' \<longleftrightarrow>
     ps_tokens p' = ps_tokens p \<and> ps_pos p \<le> ps_pos p' \<and> (parser_ok p \<longrightarrow> parser_ok p')"

lemma steps_refl [simp]: "steps p p"
  by (simp add: steps_def)

lemma steps_trans: "steps p q \<Longrightarrow> steps q r \<Longrightarrow> steps p r"
  by (auto simp: steps_def)

lemma steps_advance [simp]: "steps p (ps_advance p)"
  by (simp add: steps_def ps_advance_mono parser_ok_advance)

lemma eat_steps: "eat t p = Inr (a, p') \<Longrightarrow> steps p p'"
  by (auto dest: eat_Inr)

lemma bind_SomeInrE:
  assumes "bind m f = Some (Inr x)"
  obtains a p1 where "m = Some (Inr (a, p1))" "f a p1 = Some (Inr x)"
  using assms by (auto simp: bind_def split: option.splits sum.splits)

lemma rewrap_SomeInrE:
  assumes "rewrap lbl node p operand continue = Some (Inr x)"
  obtains left node' right p2 where "pop_child node = Some (left, node')"
    "operand (ps_advance p) = Some (Inr (right, p2))"
    "continue (add_child node' (Node lbl [left, right])) p2 = Some (Inr x)"
  using assms
  by (auto simp: rewrap_def Let_def split: option.splits elim!: bind_SomeInrE)

lemma parse_rule_steps:
  "parse_rule n r p = Some (Inr (t, p')) \<Longrightarrow> steps p p'"
proof (induction n arbitrary: r p t p')
  case 0
  then show ?case by simp
next
  case (Suc n)
  note H = Suc.IH
  note P = Suc.prems[unfolded parse_rule.simps(2)]
  show ?case
  proof (cases r)
    case R_comandos
    then show ?thesis using P H by simp
  next
    case (R_comandos_loop node)
    then show ?thesis using P
      by (auto split: if_splits elim!: bind_SomeInrE intro: steps_trans H)
  next
    case R_comando
    then show ?thesis using P
      by (auto simp: Let_def split: if_splits elim!: bind_SomeInrE
          intro: steps_trans[OF eat_steps eat_steps]
                 steps_trans[OF eat_steps steps_trans[OF eat_steps steps_trans[OF eat_steps eat_steps]]] H)
  next
    case R_atribuicao
    then show ?thesis using P
      by (auto elim!: bind_SomeInrE
          intro: steps_trans[OF eat_steps steps_trans[OF eat_steps H]])
  next
    case R_if
    then show ?thesis using P
      by (auto elim!: bind_SomeInrE
          intro: steps_trans[OF eat_steps steps_trans[OF H steps_trans[OF eat_steps
                   steps_trans[OF eat_steps steps_trans[OF H eat_steps]]]]])
  next
    case R_expressao_logica
    then show ?thesis using P
      by (auto elim!: bind_SomeInrE intro: steps_trans[OF H H])
  next
    case (R_expressao_logica_loop node)
    then show ?thesis using P
      by (auto split: if_splits elim!: rewrap_SomeInrE
          intro: steps_trans[OF steps_advance steps_trans[OF H H]])
  next
    case R_expressao_relacional
    then show ?thesis using P
      by (auto simp: Let_def split: if_splits elim!: bind_SomeInrE rewrap_SomeInrE
          intro: H steps_trans[OF H steps_trans[OF steps_advance H]])
  next
    case R_expressao_aritmetica
    then show ?thesis using P
      by (auto elim!: bind_SomeInrE intro: steps_trans[OF H H])
  next
    case (R_expressao_aritmetica_loop node)
    then show ?thesis using P
      by (auto split: if_splits elim!: rewrap_SomeInrE
          intro: steps_trans[OF steps_advance steps_trans[OF H H]])
  next
    case R_termo
    then show ?thesis using P
      by (auto elim!: bind_SomeInrE intro: steps_trans[OF H H])
  next
    case (R_termo_loop node)
    then show ?thesis using P
      by (auto split: if_splits elim!: rewrap_SomeInrE
          intro: steps_trans[OF steps_advance steps_trans[OF H H]])
  next
    case R_fator
    then show ?thesis using P
      by (auto split: if_splits elim!: bind_SomeInrE
          intro: steps_trans[OF eat_steps steps_trans[OF H eat_steps]])
  qed
qed




text \<open>Eating a token that is not the last one of the list moves the parser by one.\<close>

lemma eat_moves:
  assumes "eat t p = Inr (a, p')" "parser_ok p" "tok_type (last (ps_tokens p)) \<noteq> t"
  shows "ps_pos p' = Suc (ps_pos p) \<and> tok_type (ps_tokens p ! ps_pos p) = t \<and> ps_pos p' < length (ps_tokens p)"
proof -
  from assms(1) have p': "p' = ps_advance p" and t: "cur_type p = t" by (auto dest: eat_Inr)
  have ty: "tok_type (ps_tokens p ! ps_pos p) = t" using t assms(2) by (simp add: cur_type_def parser_ok_def)
  have ne: "ps_tokens p \<noteq> []" using assms(2) by (auto simp: parser_ok_def)
  have "ps_pos p \<noteq> length (ps_tokens p) - 1"
  proof
    assume "ps_pos p = length (ps_tokens p) - 1"
    then have "ps_tokens p ! ps_pos p = last (ps_tokens p)" using ne by (simp add: last_conv_nth)
    then show False using ty assms(3) by simp
  qed
  then have "ps_pos p < length (ps_tokens p) - 1" using assms(2) by (auto simp: parser_ok_def)
  then show ?thesis using p' ty by (simp add: ps_advance_pos)
qed

text \<open>A larger bound on the depth of the calls does not change a result that a smaller
  bound already gave.\<close>

definition le_opt :: "'a option \<Rightarrow> 'a option \<Rightarrow> bool" where
  "le_opt a b \<longleftrightarrow> a = None \<or> a = b"

lemma le_opt_refl: "le_opt a a"
  by (simp add: le_opt_def)

lemma le_opt_bind:
  "le_opt m m' \<Longrightarrow> (\<And>a q. le_opt (f a q) (f' a q)) \<Longrightarrow> le_opt (bind m f) (bind m' f')"
  by (auto simp: le_opt_def bind_def split: option.splits sum.splits)

lemma le_opt_rewrap:
  "(\<And>q. le_opt (g q) (g' q)) \<Longrightarrow> (\<And>nd q. le_opt (c nd q) (c' nd q)) \<Longrightarrow>
   le_opt (rewrap l node p g c) (rewrap l node p g' c')"
  unfolding rewrap_def Let_def
  by (auto split: option.splits intro!: le_opt_bind simp: le_opt_refl)

lemma le_opt_if:
  "(b \<Longrightarrow> le_opt x x') \<Longrightarrow> (\<not> b \<Longrightarrow> le_opt y y') \<Longrightarrow>
   le_opt (if b then x else y) (if b then x' else y')"
  by simp

lemma parse_rule_le_Suc: "le_opt (parse_rule n r p) (parse_rule (Suc n) r p)"
proof (induction n arbitrary: r p)
  case 0
  show ?case by (simp add: le_opt_def)
next
  case (Suc n)
  note IH = Suc.IH
  show ?case
    apply (subst parse_rule.simps(2) [of n r p])
    apply (subst parse_rule.simps(2) [of "Suc n" r p])
    apply (cases r)
    apply (simp_all only: rule.case Let_def)
    apply (intro le_opt_bind le_opt_rewrap le_opt_if le_opt_refl IH)+
    done
qed

lemma parse_rule_Suc: "parse_rule n r p = Some x \<Longrightarrow> parse_rule (Suc n) r p = Some x"
  using parse_rule_le_Suc[of n r p] by (simp add: le_opt_def)

lemma parse_rule_add: "parse_rule n r p = Some x \<Longrightarrow> parse_rule (n + k) r p = Some x"
  by (induction k) (auto dest: parse_rule_Suc)

lemma parse_rule_mono: "parse_rule n r p = Some x \<Longrightarrow> n \<le> m \<Longrightarrow> parse_rule m r p = Some x"
  using parse_rule_add[of n r p x "m - n"] by simp

text \<open>A command that succeeds has consumed at least one token, when the list ends in
  the EOF marker.\<close>

lemma eat_strict:
  assumes "eat t p = Inr (a, p')" "parser_ok p" "tok_type (last (ps_tokens p)) = ''EOF''" "t \<noteq> ''EOF''"
  shows "ps_pos p < ps_pos p'" "steps p p'"
  using eat_moves[OF assms(1,2)] assms(3,4) eat_steps[OF assms(1)] by auto

lemma steps_pos: "steps p q \<Longrightarrow> ps_pos p \<le> ps_pos q"
  by (simp add: steps_def)

lemma parse_if_progress:
  assumes "parse_rule n R_if p = Some (Inr (c, q))" "parser_ok p" "tok_type (last (ps_tokens p)) = ''EOF''"
  shows "ps_pos p < ps_pos q"
proof (cases n)
  case 0
  then show ?thesis using assms(1) by simp
next
  case (Suc m)
  from assms(1) obtain a p1 where e: "eat ''SE'' p = Inr (a, p1)"
    unfolding Suc parse_rule.simps(2) by (auto elim!: bind_SomeInrE)
  have "ps_pos p < ps_pos p1" using eat_strict(1)[OF e assms(2,3)] by simp
  moreover have "steps p q" using assms(1) by (rule parse_rule_steps)
  moreover have "ps_pos p1 \<le> ps_pos q"
    using assms(1) e unfolding Suc parse_rule.simps(2)
    by (auto elim!: bind_SomeInrE dest!: parse_rule_steps eat_steps steps_pos)
  ultimately show ?thesis by simp
qed

lemma parse_atribuicao_progress:
  assumes "parse_rule n R_atribuicao p = Some (Inr (c, q))" "parser_ok p" "tok_type (last (ps_tokens p)) = ''EOF''"
  shows "ps_pos p < ps_pos q"
proof (cases n)
  case 0
  then show ?thesis using assms(1) by simp
next
  case (Suc m)
  from assms(1) obtain a p1 where e: "eat ''IDENTIFIER'' p = Inr (a, p1)"
    unfolding Suc parse_rule.simps(2) by (auto elim!: bind_SomeInrE)
  have "ps_pos p < ps_pos p1" using eat_strict(1)[OF e assms(2,3)] by simp
  moreover have "ps_pos p1 \<le> ps_pos q"
    using assms(1) e unfolding Suc parse_rule.simps(2)
    by (auto elim!: bind_SomeInrE dest!: parse_rule_steps eat_steps steps_pos)
  ultimately show ?thesis by simp
qed

lemma parse_comando_progress:
  assumes "parse_rule n R_comando p = Some (Inr (c, q))" "parser_ok p" "tok_type (last (ps_tokens p)) = ''EOF''"
  shows "ps_pos p < ps_pos q"
proof (cases n)
  case 0
  then show ?thesis using assms(1) by simp
next
  case (Suc m)
  note run = assms(1)[unfolded Suc parse_rule.simps(2) rule.case Let_def]
  consider (leia) "cur_type p = ''LEIA''" | (escreva) "cur_type p = ''ESCREVA''"
    | (se) "cur_type p = ''SE''" | (ident) "cur_type p = ''IDENTIFIER''"
    | (other) "cur_type p \<notin> {''LEIA'', ''ESCREVA'', ''SE'', ''IDENTIFIER''}" by blast
  then show ?thesis
  proof cases
    case leia
    then obtain a p1 b where e: "eat ''LEIA'' p = Inr (a, p1)" and e2: "eat ''IDENTIFIER'' p1 = Inr (b, q)"
      using run by (auto elim!: bind_SomeInrE)
    show ?thesis using eat_strict(1)[OF e assms(2,3)] steps_pos[OF eat_steps[OF e2]] by simp
  next
    case escreva
    then obtain a p1 b p2 c' p3 d where e: "eat ''ESCREVA'' p = Inr (a, p1)"
      and e2: "eat ''LPAREN'' p1 = Inr (b, p2)" and e3: "eat (cur_type p2) p2 = Inr (c', p3)"
      and e4: "eat ''RPAREN'' p3 = Inr (d, q)"
      using run by (auto elim!: bind_SomeInrE split: if_splits)
    show ?thesis
      using eat_strict(1)[OF e assms(2,3)] steps_pos[OF eat_steps[OF e2]]
        steps_pos[OF eat_steps[OF e3]] steps_pos[OF eat_steps[OF e4]] by simp
  next
    case se
    then have "parse_rule m R_if p = Some (Inr (hd (children c), q))"
      using run by (auto elim!: bind_SomeInrE)
    then show ?thesis using parse_if_progress assms(2,3) by blast
  next
    case ident
    then have "parse_rule m R_atribuicao p = Some (Inr (hd (children c), q))"
      using run by (auto elim!: bind_SomeInrE split: if_splits)
    then show ?thesis using parse_atribuicao_progress assms(2,3) by blast
  next
    case other
    then show ?thesis using run by auto
  qed
qed

text \<open>Results that no longer change once the bound on the depth is large enough, and
  computations that return for some bound.\<close>

definition fuel_mono :: "(nat \<Rightarrow> 'a option) \<Rightarrow> bool" where
  "fuel_mono f \<longleftrightarrow> (\<forall>n. le_opt (f n) (f (Suc n)))"

definition returns :: "(nat \<Rightarrow> 'a option) \<Rightarrow> bool" where
  "returns f \<longleftrightarrow> (\<exists>n. f n \<noteq> None)"

lemma fuel_mono_le:
  assumes "fuel_mono f" "f n = Some x" "n \<le> m"
  shows "f m = Some x"
proof -
  have "f (n + k) = Some x" for k
  proof (induction k)
    case 0
    show ?case using assms(2) by simp
  next
    case (Suc k)
    have "le_opt (f (n + k)) (f (Suc (n + k)))" using assms(1) by (simp add: fuel_mono_def)
    then show ?case using Suc by (simp add: le_opt_def)
  qed
  from this[of "m - n"] assms(3) show ?thesis by simp
qed

lemma fm_const: "fuel_mono (\<lambda>n. c)"
  by (simp add: fuel_mono_def le_opt_def)

lemma fm_rule: "fuel_mono (\<lambda>n. parse_rule n r p)"
  by (simp add: fuel_mono_def parse_rule_le_Suc)

lemma fm_bind:
  "fuel_mono g \<Longrightarrow> (\<And>a q. fuel_mono (\<lambda>n. h n a q)) \<Longrightarrow> fuel_mono (\<lambda>n. bind (g n) (h n))"
  unfolding fuel_mono_def by (intro allI le_opt_bind) auto

lemma fm_if:
  "(b \<Longrightarrow> fuel_mono x) \<Longrightarrow> (\<not> b \<Longrightarrow> fuel_mono y) \<Longrightarrow> fuel_mono (\<lambda>n. if b then x n else y n)"
  by (simp add: fuel_mono_def)

lemma fm_rewrap:
  "(\<And>q. fuel_mono (\<lambda>n. g n q)) \<Longrightarrow> (\<And>nd q. fuel_mono (\<lambda>n. c n nd q)) \<Longrightarrow>
   fuel_mono (\<lambda>n. rewrap l node p (g n) (c n))"
  unfolding fuel_mono_def by (intro allI le_opt_rewrap) auto

lemma returns_const: "returns (\<lambda>n. Some x)"
  by (simp add: returns_def)

lemma returns_Suc: "returns (\<lambda>n. f (Suc n)) \<Longrightarrow> returns f"
  by (auto simp: returns_def)

lemma returns_if:
  "(b \<Longrightarrow> returns x) \<Longrightarrow> (\<not> b \<Longrightarrow> returns y) \<Longrightarrow> returns (\<lambda>n. if b then x n else y n)"
  by (cases b) (simp_all add: returns_def)

lemma returns_bind:
  assumes g: "returns g"
    and h: "\<And>n a q. g n = Some (Inr (a, q)) \<Longrightarrow> returns (\<lambda>k. h k a q)"
    and mg: "fuel_mono g"
    and mh: "\<And>a q. fuel_mono (\<lambda>n. h n a q)"
  shows "returns (\<lambda>n. bind (g n) (h n))"
proof -
  from g obtain n1 x where x: "g n1 = Some x" by (auto simp: returns_def)
  show ?thesis
  proof (cases x)
    case (Inl e)
    then have "bind (g n1) (h n1) = Some (Inl e)" using x by (simp add: bind_def)
    then show ?thesis unfolding returns_def by (intro exI[of _ n1]) simp
  next
    case (Inr aq)
    obtain a q where aq: "aq = (a, q)" by (cases aq)
    from h[of n1 a q] x Inr aq obtain n2 y where y: "h n2 a q = Some y"
      by (auto simp: returns_def)
    have "g (max n1 n2) = Some (Inr (a, q))"
      using fuel_mono_le[OF mg x, of "max n1 n2"] Inr aq by simp
    moreover have "h (max n1 n2) a q = Some y"
      using fuel_mono_le[OF mh y, of "max n1 n2"] by simp
    ultimately have "bind (g (max n1 n2)) (h (max n1 n2)) = Some y" by (simp add: bind_def)
    then show ?thesis unfolding returns_def by (intro exI[of _ "max n1 n2"]) simp
  qed
qed

lemma returns_eat:
  assumes "\<And>a q. eat t p = Inr (a, q) \<Longrightarrow> returns (\<lambda>k. h k a q)"
    and "\<And>a q. fuel_mono (\<lambda>n. h n a q)"
  shows "returns (\<lambda>n. bind (Some (eat t p)) (h n))"
  by (rule returns_bind) (use assms in \<open>auto simp: returns_def fm_const\<close>)

lemma returns_rewrap:
  assumes "returns (\<lambda>n. g n (ps_advance p))"
    and "\<And>n a q nd. g n (ps_advance p) = Some (Inr (a, q)) \<Longrightarrow> returns (\<lambda>k. c k nd q)"
    and "\<And>q. fuel_mono (\<lambda>n. g n q)"
    and "\<And>nd q. fuel_mono (\<lambda>n. c n nd q)"
  shows "returns (\<lambda>n. rewrap l node p (g n) (c n))"
proof (cases "pop_child node")
  case None
  then show ?thesis by (simp add: rewrap_def returns_def)
next
  case (Some lr)
  obtain left node' where lr: "lr = (left, node')" by (cases lr)
  have "returns (\<lambda>n. bind (g n (ps_advance p))
          (\<lambda>right p2. c n (add_child node' (Node l [left, right])) p2))"
    by (rule returns_bind) (use assms in auto)
  then show ?thesis using Some lr by (simp add: rewrap_def Let_def)
qed

text \<open>\<open>q\<close> is reached from \<open>p\<close> and at least one token lies between them.\<close>

definition ahead :: "parser \<Rightarrow> parser \<Rightarrow> bool" where
  "ahead p q \<longleftrightarrow> steps p q \<and> ps_pos p < ps_pos q"

lemma eat_ahead:
  assumes "eat t x = Inr (a, q)" "steps p x" "parser_ok p" "tok_type (last (ps_tokens p)) = ''EOF''"
    "t \<noteq> ''EOF''"
  shows "ahead p q"
proof -
  have "parser_ok x" "ps_tokens x = ps_tokens p" "ps_pos p \<le> ps_pos x"
    using assms(2,3) by (auto simp: steps_def)
  then have "ps_pos x < ps_pos q" "steps x q"
    using eat_strict[OF assms(1)] assms(4,5) by auto
  then show ?thesis using assms(2) \<open>ps_pos p \<le> ps_pos x\<close> steps_trans unfolding ahead_def by fastforce
qed

lemma advance_ahead:
  assumes "cur_type x \<noteq> ''EOF''" "steps p x" "parser_ok p" "tok_type (last (ps_tokens p)) = ''EOF''"
  shows "ahead p (ps_advance x)"
proof -
  have "\<exists>a. eat (cur_type x) x = Inr (a, ps_advance x)" by (simp add: eat_def)
  then show ?thesis using eat_ahead[OF _ assms(2,3,4,1)] by blast
qed

lemma eat_ahead2: "eat t x = Inr (a, q) \<Longrightarrow> ahead p x \<Longrightarrow> ahead p q"
  using eat_steps steps_trans steps_pos unfolding ahead_def by fastforce

lemma rule_ahead: "parse_rule n r x = Some (Inr (a, q)) \<Longrightarrow> ahead p x \<Longrightarrow> ahead p q"
  using parse_rule_steps steps_trans steps_pos unfolding ahead_def by fastforce

lemma rule_steps: "parse_rule n r x = Some (Inr (a, q)) \<Longrightarrow> steps p x \<Longrightarrow> steps p q"
  using parse_rule_steps steps_trans by blast

lemma ahead_steps: "ahead p q \<Longrightarrow> steps p q"
  by (simp add: ahead_def)

section \<open>The claims\<close>


text \<open>Claim C3. Every token of a successful scan, the end marker included, should carry a
  line and a column that are both at least 1. On the one-character text holding a single
  newline the scanner returns only the end marker, at line 2 and column 0: \<open>lx_advance\<close>
  resets the column to 0 on the newline and does not count it up again once the input is
  exhausted.\<close>

theorem C3_eof_column_zero:
  "tokenize (Lexer [LF]) = Inr [Token ''EOF'' None 2 0]"
  by (simp add: lexer_eval)

text \<open>Claim C8. Wherever the scanner stands on a block comment opener \<^verbatim>\<open>/*\<close>: if no
  \<^verbatim>\<open>*/\<close> follows the opener before the end of the text, \<open>tokenize\<close> raises the lexical
  fault "Unterminated block comment" whose line and column are those of the opening
  \<^verbatim>\<open>/\<close>, not of the end of the input; if a closing \<^verbatim>\<open>*/\<close> follows, \<open>k\<close> characters after
  the opener, the whole comment of \<open>k + 4\<close> characters (newlines included) is passed over
  and yields no token: scanning goes on exactly as from the position after it.\<close>

theorem C8_block_comment:
  assumes "lexer_ok s"
    and "lx_current_char s = Some (CHR ''/'')"
    and "lx_peek s 1 = Some (CHR ''*'')"
  shows "(find_close (drop (lx_pos s + 2) (lx_text s)) = None \<longrightarrow>
            tokenize s = Inl (LexicalError ''Unterminated block comment''
                               (line_of (lx_text s) (lx_pos s)) (col_of (lx_text s) (lx_pos s)) None))
       \<and> (\<forall>k. find_close (drop (lx_pos s + 2) (lx_text s)) = Some k \<longrightarrow>
            skip_block_comment s = Inr ((lx_advance ^^ (k + 4)) s)
            \<and> lx_pos ((lx_advance ^^ (k + 4)) s) = lx_pos s + k + 4
            \<and> get_next_token s = get_next_token ((lx_advance ^^ (k + 4)) s)
            \<and> tokenize s = tokenize ((lx_advance ^^ (k + 4)) s))"
proof (intro conjI impI allI)
  assume "find_close (drop (lx_pos s + 2) (lx_text s)) = None"
  then have "skip_block_comment s = Inl (LexicalError ''Unterminated block comment''
      (line_of (lx_text s) (lx_pos s)) (col_of (lx_text s) (lx_pos s)) None)"
    using skip_block_comment_find[OF assms] by simp
  then have "get_next_token s = Inl (LexicalError ''Unterminated block comment''
      (line_of (lx_text s) (lx_pos s)) (col_of (lx_text s) (lx_pos s)) None)"
    using get_next_token_block_comment[OF assms(2,3)] by simp
  then show "tokenize s = Inl (LexicalError ''Unterminated block comment''
      (line_of (lx_text s) (lx_pos s)) (col_of (lx_text s) (lx_pos s)) None)"
    by (rule tokenize_fault)
next
  fix k
  assume k: "find_close (drop (lx_pos s + 2) (lx_text s)) = Some k"
  then show sk: "skip_block_comment s = Inr ((lx_advance ^^ (k + 4)) s)"
    using skip_block_comment_find[OF assms] by simp
  show "lx_pos ((lx_advance ^^ (k + 4)) s) = lx_pos s + k + 4" by simp
  show g: "get_next_token s = get_next_token ((lx_advance ^^ (k + 4)) s)"
    using get_next_token_block_comment[OF assms(2,3)] sk by simp
  then show "tokenize s = tokenize ((lx_advance ^^ (k + 4)) s)" by (rule tokenize_cong)
qed

theorem C8_block_comment_witness:
  "tokenize (Lexer ''/* never closes'') = Inl (LexicalError ''Unterminated block comment'' 1 1 None)
   \<and> tokenize (Lexer (''+ /* a'' @ [LF] @ ''b */ *'')) =
       Inr [Token ''PLUS'' (Some ''+'') 1 1, Token ''MUL'' (Some ''*'') 2 6, Token ''EOF'' None 2 6]
   \<and> tokenize (Lexer (''  /* a'' @ [LF] @ ''b */ *'')) =
       tokenize ((lx_advance ^^ 11) (Lexer (''  /* a'' @ [LF] @ ''b */ *'')))"
proof -
  let ?s = "Lexer ''/* never closes''"
  have a: "lexer_ok ?s" by (rule lexer_ok_Lexer)
  have b: "lx_current_char ?s = Some (CHR ''/'')" "lx_peek ?s 1 = Some (CHR ''*'')"
    by (simp_all add: lexer_eval)
  have c: "find_close (drop (lx_pos ?s + 2) (lx_text ?s)) = None"
    by (simp add: lexer_eval)
  have l: "line_of (lx_text ?s) (lx_pos ?s) = 1" "col_of (lx_text ?s) (lx_pos ?s) = 1"
    by (simp_all add: lexer_eval line_of_def col_of_def)
  have 1: "tokenize ?s = Inl (LexicalError ''Unterminated block comment'' 1 1 None)"
    using C8_block_comment[OF a b] c l by simp
  let ?t = "lx_advance (lx_advance (Lexer (''  /* a'' @ [LF] @ ''b */ *'')))"
  have ok0: "lexer_ok (Lexer (''  /* a'' @ [LF] @ ''b */ *''))" by (rule lexer_ok_Lexer)
  have ta: "lexer_ok ?t"
    by (rule lexer_ok_advance, rule lexer_ok_advance, rule ok0) (simp_all add: lexer_eval)
  have tb: "lx_current_char ?t = Some (CHR ''/'')" "lx_peek ?t 1 = Some (CHR ''*'')"
    by (simp_all add: lexer_eval)
  have tc: "find_close (drop (lx_pos ?t + 2) (lx_text ?t)) = Some 5"
    by (simp add: lexer_eval)
  have 3: "tokenize ?t = tokenize ((lx_advance ^^ 9) ?t)"
    using C8_block_comment[OF ta tb] tc by simp
  have 2: "tokenize (Lexer (''+ /* a'' @ [LF] @ ''b */ *'')) =
       Inr [Token ''PLUS'' (Some ''+'') 1 1, Token ''MUL'' (Some ''*'') 2 6, Token ''EOF'' None 2 6]"
    by (simp add: lexer_eval)
  have 4: "tokenize (Lexer (''  /* a'' @ [LF] @ ''b */ *'')) = tokenize ?t"
    by (rule tokenize_cong) (simp add: lexer_eval)
  have 5: "(lx_advance ^^ 9) ?t = (lx_advance ^^ 11) (Lexer (''  /* a'' @ [LF] @ ''b */ *''))"
    by (simp add: funpow_numeral_unfold funpow_swap1)
  show ?thesis using 1 2 3 4 5 by simp
qed

text \<open>Claim C7, as stated: every \<^verbatim>\<open>.\<close> that no digit follows is a lexical fault reported at
  the start of the literal. It fails for a dot behind a complete number. In \<^verbatim>\<open>1.5.\<close> the
  last dot (column 4) ends a literal that starts at column 1, and the fault is reported at
  column 4; in \<^verbatim>\<open>1 .\<close> the dot (column 3) stands alone behind the number at column 1, and
  the fault is reported at column 1: the start of the literal in neither reading of both.\<close>

theorem C7_counterexample:
  "tokenize (Lexer ''1.5.'') =
     Inl (LexicalError ''Invalid numeric constant: multiple decimal points'' 1 4 (Some (CHR ''.'')))
   \<and> tokenize (Lexer ''1 .'') =
     Inl (LexicalError ''Invalid numeric constant: unexpected '.' after number'' 1 1 (Some (CHR ''.'')))
   \<and> col_of ''1.5.'' 0 = 1 \<and> col_of ''1.5.'' 3 = 4 \<and> col_of ''1 .'' 0 = 1 \<and> col_of ''1 .'' 2 = 3"
  by (simp add: lexer_eval col_of_def numeral_3_eq_3 numeral_2_eq_2)

text \<open>Claim C7, amended. Where the scanner stands on a \<^verbatim>\<open>.\<close> that no digit follows (leading
  position), or on digits whose dot no digit follows (trailing position, as in \<^verbatim>\<open>1.\<close>),
  \<open>tokenize\<close> raises a lexical fault at the line and column of that position, the start of
  the literal, with offending character \<^verbatim>\<open>.\<close>, and returns no token. Where it stands on a
  complete numeric literal that is followed, at once or behind blanks, by a \<^verbatim>\<open>.\<close> that no
  digit follows, \<open>tokenize\<close> also raises a lexical fault with offending character \<^verbatim>\<open>.\<close> and
  returns no token, reported at that dot when it directly follows a digits-dot-digits
  literal and at the start of the preceding literal otherwise.\<close>

theorem C7_dot_without_digit:
  assumes "lexer_ok s"
  shows "(\<forall>r. rest_of s = CHR ''.'' # r \<and> \<not> starts_digit r \<longrightarrow>
            tokenize s = Inl (LexicalError ''Invalid character''
                               (line_of (lx_text s) (lx_pos s)) (col_of (lx_text s) (lx_pos s))
                               (Some (CHR ''.''))))
       \<and> (\<forall>r. starts_digit (rest_of s) \<and> dropWhile is_digit (rest_of s) = CHR ''.'' # r
               \<and> \<not> starts_digit r \<longrightarrow>
            tokenize s = Inl (LexicalError ''Invalid numeric constant: digits required after decimal point''
                               (line_of (lx_text s) (lx_pos s)) (col_of (lx_text s) (lx_pos s))
                               (Some (CHR ''.''))))
       \<and> (\<forall>lit ws rest. rest_of s = lit @ ws @ CHR ''.'' # rest \<and> numeric_literal lit
               \<and> list_all is_space ws \<and> (ws = [] \<longrightarrow> CHR ''.'' \<in> set lit)
               \<and> \<not> starts_digit rest \<longrightarrow>
            tokenize s =
              Inl (if ws = [] \<and> \<not> starts_dot lit
                   then LexicalError ''Invalid numeric constant: multiple decimal points''
                          (line_of (lx_text s) (lx_pos s + length lit))
                          (col_of (lx_text s) (lx_pos s + length lit)) (Some (CHR ''.''))
                   else LexicalError ''Invalid numeric constant: unexpected '.' after number''
                          (line_of (lx_text s) (lx_pos s)) (col_of (lx_text s) (lx_pos s))
                          (Some (CHR ''.''))))"
proof (intro conjI allI impI)
  fix r
  assume a: "rest_of s = CHR ''.'' # r \<and> \<not> starts_digit r"
  then have ne: "rest_of s \<noteq> []" by simp
  have cc: "lx_current_char s = Some (CHR ''.'')" using a assms by (simp add: current_is_dot)
  have pk: "no_digit (lx_peek s 1)" unfolding peek_no_digit using a by simp
  have "get_next_token s = Inl (LexicalError ''Invalid character''
          (line_of (lx_text s) (lx_pos s)) (col_of (lx_text s) (lx_pos s)) (Some (CHR ''.'')))"
    using get_next_token_bare_dot[OF cc pk] lexer_ok_lc[OF assms ne] by (simp add: lx_error_def)
  then show "tokenize s = Inl (LexicalError ''Invalid character''
          (line_of (lx_text s) (lx_pos s)) (col_of (lx_text s) (lx_pos s)) (Some (CHR ''.'')))"
    by (rule tokenize_fault)
next
  fix r
  assume a: "starts_digit (rest_of s) \<and> dropWhile is_digit (rest_of s) = CHR ''.'' # r
               \<and> \<not> starts_digit r"
  then obtain c r0 where c: "rest_of s = c # r0" "is_digit c" by (cases "rest_of s") auto
  then have cc: "lx_current_char s = Some c" using assms by (simp add: current_char_rest)
  have n: "number s = Inl (LexicalError ''Invalid numeric constant: digits required after decimal point''
          (line_of (lx_text s) (lx_pos s)) (col_of (lx_text s) (lx_pos s)) (Some (CHR ''.'')))"
    using number_digit_start[OF assms, OF _ refl refl refl refl] a by simp
  have "get_next_token s = Inl (LexicalError ''Invalid numeric constant: digits required after decimal point''
          (line_of (lx_text s) (lx_pos s)) (col_of (lx_text s) (lx_pos s)) (Some (CHR ''.'')))"
    using get_next_token_number[OF cc] c(2) n by simp
  then show "tokenize s = Inl (LexicalError ''Invalid numeric constant: digits required after decimal point''
          (line_of (lx_text s) (lx_pos s)) (col_of (lx_text s) (lx_pos s)) (Some (CHR ''.'')))"
    by (rule tokenize_fault)
next
  fix lit ws rest
  assume a: "rest_of s = lit @ ws @ CHR ''.'' # rest \<and> numeric_literal lit
               \<and> list_all is_space ws \<and> (ws = [] \<longrightarrow> CHR ''.'' \<in> set lit)
               \<and> \<not> starts_digit rest"
  then have shape: "rest_of s = lit @ ws @ CHR ''.'' # rest" and lit: "numeric_literal lit"
    and ws: "list_all is_space ws" and sec: "ws = [] \<longrightarrow> CHR ''.'' \<in> set lit" by simp_all
  from lit show "tokenize s =
      Inl (if ws = [] \<and> \<not> starts_dot lit
           then LexicalError ''Invalid numeric constant: multiple decimal points''
                  (line_of (lx_text s) (lx_pos s + length lit))
                  (col_of (lx_text s) (lx_pos s + length lit)) (Some (CHR ''.''))
           else LexicalError ''Invalid numeric constant: unexpected '.' after number''
                  (line_of (lx_text s) (lx_pos s)) (col_of (lx_text s) (lx_pos s))
                  (Some (CHR ''.'')))"
  proof (cases rule: numeric_literal_cases)
    case int
    have "CHR ''.'' \<notin> set lit" using int(2) by (auto simp: list_all_iff)
    then have "ws \<noteq> []" using sec by auto
    then show ?thesis
      using dot_after_integer[OF assms shape int ws] by simp
  next
    case (frac ds fr)
    show ?thesis
    proof (cases "ds = []")
      case True
      then have "starts_dot lit" using frac(1) by simp
      then show ?thesis
        using dot_after_leading_dot_literal[OF assms _ frac(3,4) ws, of rest]
          shape frac(1) True by simp
    next
      case False
      then have "\<not> starts_dot lit" using frac(1,2) by (cases ds) auto
      then show ?thesis
        using dot_after_fraction[OF assms _ False frac(2,3,4) ws, of rest]
          shape frac(1) by simp
    qed
  qed
qed

theorem C7_dot_without_digit_witness:
  "tokenize (Lexer ''.'') = Inl (LexicalError ''Invalid character'' 1 1 (Some (CHR ''.'')))
   \<and> tokenize ((lx_advance ^^ 4) (Lexer (''a'' @ [LF] @ ''  7. ''))) =
        Inl (LexicalError ''Invalid numeric constant: digits required after decimal point'' 2 3
              (Some (CHR ''.'')))
   \<and> tokenize (Lexer ''1.5.'') =
        Inl (LexicalError ''Invalid numeric constant: multiple decimal points'' 1 4 (Some (CHR ''.'')))
   \<and> tokenize (Lexer ''1 .'') =
        Inl (LexicalError ''Invalid numeric constant: unexpected '.' after number'' 1 1
              (Some (CHR ''.'')))"
proof -
  let ?t = "Lexer (''a'' @ [LF] @ ''  7. '')"
  let ?s = "(lx_advance ^^ 4) ?t"
  have rt: "rest_of ?t = ''a'' @ [LF] @ ''  7. ''" by (simp add: rest_of_def lexer_eval)
  have oks: "lexer_ok ?s"
    by (rule lexer_ok_funpow_rest[OF lexer_ok_Lexer]) (simp add: rest_of_def lexer_eval)
  have rs: "rest_of ?s = ''7. ''" unfolding rest_of_funpow rt by simp
  have ps: "lx_pos ?s = 4" "lx_text ?s = ''a'' @ [LF] @ ''  7. ''" by (simp_all add: lexer_eval)
  have a: "rest_of (Lexer ''.'') = CHR ''.'' # [] \<and> \<not> starts_digit []"
    by (simp add: rest_of_def lexer_eval)
  have b: "starts_digit (rest_of ?s) \<and> dropWhile is_digit (rest_of ?s) = CHR ''.'' # '' ''
      \<and> \<not> starts_digit '' ''"
    unfolding rs by (simp add: is_digit_def)
  have c: "rest_of (Lexer ''1.5.'') = ''1.5'' @ [] @ CHR ''.'' # [] \<and> numeric_literal ''1.5''
      \<and> list_all is_space [] \<and> ([] = [] \<longrightarrow> CHR ''.'' \<in> set ''1.5'') \<and> \<not> starts_digit []"
    by (simp add: rest_of_def lexer_eval numeric_literal_def is_digit_def)
  have d: "rest_of (Lexer ''1 .'') = ''1'' @ '' '' @ CHR ''.'' # [] \<and> numeric_literal ''1''
      \<and> list_all is_space '' '' \<and> ('' '' = [] \<longrightarrow> CHR ''.'' \<in> set ''1'') \<and> \<not> starts_digit []"
    by (simp add: rest_of_def lexer_eval numeric_literal_def is_digit_def is_space_def)
  have p: "lx_pos (Lexer ''.'') = 0" "lx_pos (Lexer ''1.5.'') = 0" "lx_text (Lexer ''1.5.'') = ''1.5.''"
    "lx_pos (Lexer ''1 .'') = 0" by (simp_all add: lexer_eval)
  have 1: "tokenize (Lexer ''.'') = Inl (LexicalError ''Invalid character'' 1 1 (Some (CHR ''.'')))"
    using C7_dot_without_digit[OF lexer_ok_Lexer, of "''.''", THEN conjunct1] a
    by (simp add: p line_of_def col_of_def)
  have 2: "tokenize ?s =
        Inl (LexicalError ''Invalid numeric constant: digits required after decimal point'' 2 3
              (Some (CHR ''.'')))"
    using C7_dot_without_digit[OF oks, THEN conjunct2, THEN conjunct1, rule_format, OF b]
    by (simp add: Lexer_def replace_cr_def Let_def line_of_def col_of_def)
  have 3: "tokenize (Lexer ''1.5.'') =
        Inl (LexicalError ''Invalid numeric constant: multiple decimal points'' 1 4 (Some (CHR ''.'')))"
    using C7_dot_without_digit[OF lexer_ok_Lexer, THEN conjunct2, THEN conjunct2, rule_format, OF c]
    by (simp add: p line_of_def col_of_def)
  have 4: "tokenize (Lexer ''1 .'') =
        Inl (LexicalError ''Invalid numeric constant: unexpected '.' after number'' 1 1
              (Some (CHR ''.'')))"
    using C7_dot_without_digit[OF lexer_ok_Lexer, THEN conjunct2, THEN conjunct2, rule_format, OF d]
    by (simp add: p line_of_def col_of_def)
  show ?thesis using 1 2 3 4 by (intro conjI)
qed

text \<open>Claim C6. Where the scanner stands on a complete numeric literal \<open>lit\<close> that is
  followed by blanks \<open>ws\<close> (spaces, tabs, newlines; none at all only if the literal already
  holds a dot) and then a \<^verbatim>\<open>.\<close>, \<open>tokenize\<close> raises a lexical fault with offending character
  \<^verbatim>\<open>.\<close> instead of returning tokens: "multiple decimal points", at the second dot, when
  the dot follows a digits-dot-digits literal at once; "unexpected '.' after number", at
  the start of the literal, otherwise. The lookahead behind the literal returns the first
  character that is not a space, tab or newline, so it stops at a comment opener.\<close>

theorem C6_dot_after_number:
  assumes "lexer_ok s"
    and "rest_of s = lit @ ws @ CHR ''.'' # rest"
    and "numeric_literal lit"
    and "list_all is_space ws"
    and "ws = [] \<longrightarrow> CHR ''.'' \<in> set lit"
  shows "tokenize s =
     Inl (if ws = [] \<and> \<not> starts_dot lit
          then LexicalError ''Invalid numeric constant: multiple decimal points''
                 (line_of (lx_text s) (lx_pos s + length lit))
                 (col_of (lx_text s) (lx_pos s + length lit)) (Some (CHR ''.''))
          else LexicalError ''Invalid numeric constant: unexpected '.' after number''
                 (line_of (lx_text s) (lx_pos s)) (col_of (lx_text s) (lx_pos s)) (Some (CHR ''.'')))
     \<and> (\<forall>s2. lx_pos s2 \<le> length (lx_text s2) \<longrightarrow>
           peek_next_non_whitespace s2 =
             (case dropWhile is_space (rest_of s2) of [] \<Rightarrow> None | c # _ \<Rightarrow> Some c))"
proof (intro conjI allI impI)
  from assms(3) show "tokenize s =
     Inl (if ws = [] \<and> \<not> starts_dot lit
          then LexicalError ''Invalid numeric constant: multiple decimal points''
                 (line_of (lx_text s) (lx_pos s + length lit))
                 (col_of (lx_text s) (lx_pos s + length lit)) (Some (CHR ''.''))
          else LexicalError ''Invalid numeric constant: unexpected '.' after number''
                 (line_of (lx_text s) (lx_pos s)) (col_of (lx_text s) (lx_pos s)) (Some (CHR ''.'')))"
  proof (cases rule: numeric_literal_cases)
    case int
    have "CHR ''.'' \<notin> set lit" using int(2) by (auto simp: list_all_iff)
    then have "ws \<noteq> []" using assms(5) by auto
    then show ?thesis
      using dot_after_integer[OF assms(1,2) int assms(4)] by simp
  next
    case (frac ds fr)
    show ?thesis
    proof (cases "ds = []")
      case True
      then have "starts_dot lit" using frac(1) by simp
      then show ?thesis
        using dot_after_leading_dot_literal[OF assms(1) _ frac(3,4) assms(4), of rest]
          assms(2) frac(1) True by simp
    next
      case False
      then have "\<not> starts_dot lit" using frac(1,2) by (cases ds) auto
      then show ?thesis
        using dot_after_fraction[OF assms(1) _ False frac(2,3,4) assms(4), of rest]
          assms(2) frac(1) by simp
    qed
  qed
next
  fix s2 :: lexer
  assume "lx_pos s2 \<le> length (lx_text s2)"
  then show "peek_next_non_whitespace s2 =
      (case dropWhile is_space (rest_of s2) of [] \<Rightarrow> None | c # _ \<Rightarrow> Some c)"
    by (rule peek_next_non_whitespace_spec)
qed

theorem C6_dot_after_number_witness:
  "tokenize (Lexer ''1.2.3'') =
     Inl (LexicalError ''Invalid numeric constant: multiple decimal points'' 1 4 (Some (CHR ''.'')))
   \<and> tokenize (Lexer ''1 .5'') =
     Inl (LexicalError ''Invalid numeric constant: unexpected '.' after number'' 1 1 (Some (CHR ''.'')))
   \<and> peek_next_non_whitespace (lx_advance (Lexer ''1 #.'')) = Some (CHR ''#'')
   \<and> tokenize (Lexer (''1 #c'' @ [LF] @ ''.5'')) =
     Inr [Token ''NUMBER'' (Some ''1'') 1 1, Token ''NUMBER'' (Some ''.5'') 2 1, Token ''EOF'' None 2 2]"
proof -
  let ?t = "lx_advance (Lexer ''1 #.'')"
  have a: "rest_of (Lexer ''1.2.3'') = ''1.2'' @ [] @ CHR ''.'' # ''3''"
    "rest_of (Lexer ''1 .5'') = ''1'' @ '' '' @ CHR ''.'' # ''5''"
    by (simp_all add: rest_of_def lexer_eval)
  have b: "numeric_literal ''1.2''" "numeric_literal ''1''"
    by (simp_all add: numeric_literal_def is_digit_def)
  have c: "list_all is_space []" "list_all is_space '' ''" by (simp_all add: is_space_def)
  have d: "[] = [] \<longrightarrow> CHR ''.'' \<in> set ''1.2''" "'' '' = [] \<longrightarrow> CHR ''.'' \<in> set ''1''" by simp_all
  have p: "lx_pos (Lexer ''1.2.3'') = 0" "lx_text (Lexer ''1.2.3'') = ''1.2.3''"
    "lx_pos (Lexer ''1 .5'') = 0" "lx_text (Lexer ''1 .5'') = ''1 .5''"
    by (simp_all add: lexer_eval)
  have 1: "tokenize (Lexer ''1.2.3'') =
     Inl (LexicalError ''Invalid numeric constant: multiple decimal points'' 1 4 (Some (CHR ''.'')))"
    using C6_dot_after_number[OF lexer_ok_Lexer a(1) b(1) c(1) d(1), THEN conjunct1]
    by (simp add: p line_of_def col_of_def)
  have 2: "tokenize (Lexer ''1 .5'') =
     Inl (LexicalError ''Invalid numeric constant: unexpected '.' after number'' 1 1 (Some (CHR ''.'')))"
    using C6_dot_after_number[OF lexer_ok_Lexer a(2) b(2) c(2) d(2), THEN conjunct1]
    by (simp add: p line_of_def col_of_def)
  have le: "lx_pos ?t \<le> length (lx_text ?t)" by (simp add: lexer_eval)
  have dw: "dropWhile is_space (rest_of ?t) = ''#.''" by (simp add: rest_of_def lexer_eval)
  have "peek_next_non_whitespace ?t =
      (case dropWhile is_space (rest_of ?t) of [] \<Rightarrow> None | c # _ \<Rightarrow> Some c)"
    using C6_dot_after_number[OF lexer_ok_Lexer a(2) b(2) c(2) d(2), THEN conjunct2] le by blast
  then have 3: "peek_next_non_whitespace ?t = Some (CHR ''#'')" unfolding dw by simp
  have 4: "tokenize (Lexer (''1 #c'' @ [LF] @ ''.5'')) =
     Inr [Token ''NUMBER'' (Some ''1'') 1 1, Token ''NUMBER'' (Some ''.5'') 2 1, Token ''EOF'' None 2 2]"
    by (simp add: lexer_eval)
  show ?thesis using 1 2 3 4 by (intro conjI)
qed

text \<open>Claim C10. The parser never reads past the end of the token sequence. A successful
  \<open>tokenize\<close> returns a non-empty list whose last element is the EOF token, so the parser
  built from it starts with its index in bounds. \<open>ps_advance\<close> moves the index by one
  exactly while it is strictly below the last position and otherwise leaves the parser as
  it is, so index and current token stay in bounds, and a parser standing on the final
  EOF token stays there. \<open>peek_next_type\<close> returns \<open>None\<close> when the requested offset is
  past the end, and the type of the token at that offset otherwise.\<close>

theorem C10_reads_stay_in_bounds:
  "(\<forall>toks. tokenize s = Inr toks \<longrightarrow>
       toks \<noteq> [] \<and> tok_type (last toks) = ''EOF'' \<and> (\<exists>p0. Parser toks = Inr p0 \<and> parser_ok p0))
   \<and> (parser_ok p \<longrightarrow>
         parser_ok (ps_advance p)
         \<and> ps_tokens (ps_advance p) = ps_tokens p
         \<and> ps_pos (ps_advance p) =
             (if ps_pos p < length (ps_tokens p) - 1 then ps_pos p + 1 else ps_pos p))
   \<and> (parser_ok p \<and> ps_pos p = length (ps_tokens p) - 1 \<longrightarrow>
         ps_advance p = p \<and> ps_current_token p = last (ps_tokens p))
   \<and> peek_next_type p k =
        (if ps_pos p + k < length (ps_tokens p)
         then Some (tok_type (ps_tokens p ! (ps_pos p + k))) else None)"
proof (intro conjI allI impI)
  fix toks
  assume t: "tokenize s = Inr toks"
  then have e: "toks \<noteq> [] \<and> tok_type (last toks) = ''EOF''"
    unfolding tokenize_def by (rule tokenize_loop_ends_in_EOF)
  then show "toks \<noteq> []" and "tok_type (last toks) = ''EOF''" by simp_all
  from e obtain t0 ts where "toks = t0 # ts" by (cases toks) auto
  then have "Parser toks = Inr \<lparr>ps_tokens = toks, ps_pos = 0, ps_current_token = t0\<rparr>"
    by (simp add: Parser_def)
  then show "\<exists>p0. Parser toks = Inr p0 \<and> parser_ok p0"
    using parser_ok_Parser by blast
next
  assume "parser_ok p"
  then show "parser_ok (ps_advance p)" by (rule parser_ok_advance)
next
  show "ps_tokens (ps_advance p) = ps_tokens p" by simp
next
  show "ps_pos (ps_advance p) =
      (if ps_pos p < length (ps_tokens p) - 1 then ps_pos p + 1 else ps_pos p)"
    by (simp add: ps_advance_pos)
next
  assume a: "parser_ok p \<and> ps_pos p = length (ps_tokens p) - 1"
  then show "ps_advance p = p" by (simp add: ps_advance_def)
  from a have "ps_tokens p \<noteq> []" by (auto simp: parser_ok_def)
  then show "ps_current_token p = last (ps_tokens p)"
    using a by (simp add: parser_ok_def last_conv_nth)
next
  show "peek_next_type p k =
        (if ps_pos p + k < length (ps_tokens p)
         then Some (tok_type (ps_tokens p ! (ps_pos p + k))) else None)"
    by (simp add: peek_next_type_def Let_def)
qed

theorem C10_reads_stay_in_bounds_witness:
  "tokenize (Lexer ''x'') = Inr [Token ''IDENTIFIER'' (Some ''x'') 1 1, Token ''EOF'' None 1 1]
   \<and> parser_ok \<lparr>ps_tokens = [Token ''IDENTIFIER'' (Some ''x'') 1 1, Token ''EOF'' None 1 1],
                ps_pos = 0, ps_current_token = Token ''IDENTIFIER'' (Some ''x'') 1 1\<rparr>
   \<and> ps_advance \<lparr>ps_tokens = [Token ''IDENTIFIER'' (Some ''x'') 1 1, Token ''EOF'' None 1 1],
                ps_pos = 0, ps_current_token = Token ''IDENTIFIER'' (Some ''x'') 1 1\<rparr>
       = \<lparr>ps_tokens = [Token ''IDENTIFIER'' (Some ''x'') 1 1, Token ''EOF'' None 1 1],
          ps_pos = 1, ps_current_token = Token ''EOF'' None 1 1\<rparr>
   \<and> ps_advance \<lparr>ps_tokens = [Token ''IDENTIFIER'' (Some ''x'') 1 1, Token ''EOF'' None 1 1],
                ps_pos = 1, ps_current_token = Token ''EOF'' None 1 1\<rparr>
       = \<lparr>ps_tokens = [Token ''IDENTIFIER'' (Some ''x'') 1 1, Token ''EOF'' None 1 1],
          ps_pos = 1, ps_current_token = Token ''EOF'' None 1 1\<rparr>
   \<and> peek_next_type \<lparr>ps_tokens = [Token ''IDENTIFIER'' (Some ''x'') 1 1, Token ''EOF'' None 1 1],
                ps_pos = 1, ps_current_token = Token ''EOF'' None 1 1\<rparr> 1 = None"
proof -
  let ?toks = "[Token ''IDENTIFIER'' (Some ''x'') 1 1, Token ''EOF'' None 1 1]"
  let ?p0 = "\<lparr>ps_tokens = ?toks, ps_pos = 0, ps_current_token = Token ''IDENTIFIER'' (Some ''x'') 1 1\<rparr>"
  let ?p1 = "\<lparr>ps_tokens = ?toks, ps_pos = 1, ps_current_token = Token ''EOF'' None 1 1\<rparr>"
  have t: "tokenize (Lexer ''x'') = Inr ?toks" by (simp add: lexer_eval)
  have P: "Parser ?toks = Inr ?p0" by (simp add: Parser_def)
  from C10_reads_stay_in_bounds[of "Lexer ''x''" ?p0 1, THEN conjunct1, rule_format, OF t]
  have ok0: "parser_ok ?p0" using P by auto
  have a: "ps_advance ?p0 = ?p1" by (simp add: ps_advance_def)
  from C10_reads_stay_in_bounds[of "Lexer ''x''" ?p0 1, THEN conjunct2, THEN conjunct1, rule_format, OF ok0]
  have ok1: "parser_ok ?p1" using a by simp
  have "parser_ok ?p1 \<and> ps_pos ?p1 = length (ps_tokens ?p1) - 1" using ok1 by simp
  from C10_reads_stay_in_bounds[of "Lexer ''x''" ?p1 1, THEN conjunct2, THEN conjunct2, THEN conjunct1,
      rule_format, OF this]
  have pin: "ps_advance ?p1 = ?p1" by simp
  have pk: "peek_next_type ?p1 1 = None"
    using C10_reads_stay_in_bounds[of "Lexer ''x''" ?p1 1, THEN conjunct2, THEN conjunct2, THEN conjunct2]
    by simp
  show ?thesis using t ok0 a pin pk by (intro conjI)
qed

text \<open>Claim C4, as stated: in the tree of \<^verbatim>\<open>2+3*4\<close> the right child of the \<^verbatim>\<open>+\<close> node is a
  \<^verbatim>\<open>*\<close> node. In the tree that \<open>parse_expressao_aritmetica\<close> builds, the only child of the
  root is the \<^verbatim>\<open>+\<close> node and the label of its right child is \<^verbatim>\<open>Termo\<close>, not \<^verbatim>\<open>*\<close>:
  \<open>parse_termo\<close> wraps what it parses in a node of its own.\<close>

theorem C4_counterexample:
  "map_option (map_sum id (\<lambda>t. (label (hd (children t)), label (children (hd (children t)) ! 1))))
     (tree_of (parse_expressao_aritmetica 10) ''2+3*4'')
   = Some (Inr (''+'', ''Termo''))"
  unfolding tree_of_def tokens_2_plus_3_times_4 by (simp add: parser_eval)

text \<open>Claim C4, amended. Parsing \<^verbatim>\<open>2+3*4\<close> yields a tree in which the right child of the
  \<^verbatim>\<open>+\<close> node is a \<^verbatim>\<open>Termo\<close> node whose only child is the \<^verbatim>\<open>*\<close> node over 3 and 4
  (multiplication binds tighter than addition), and parsing \<^verbatim>\<open>a-b-c\<close> yields a tree in
  which the left child of the outer \<^verbatim>\<open>-\<close> node is itself the \<^verbatim>\<open>-\<close> node covering
  \<^verbatim>\<open>a-b\<close> (chains of one precedence group to the left).\<close>

theorem C4_expression_trees:
  "tree_of (parse_expressao_aritmetica 10) ''2+3*4'' =
     Some (Inr (Node ''ExpressaoAritmetica''
       [Node ''+''
         [Node ''Termo'' [Node ''NUMBER(2)'' []],
          Node ''Termo'' [Node ''*'' [Node ''NUMBER(3)'' [], Node ''NUMBER(4)'' []]]]]))
   \<and> tree_of (parse_expressao_aritmetica 10) ''a-b-c'' =
     Some (Inr (Node ''ExpressaoAritmetica''
       [Node ''-''
         [Node ''-''
           [Node ''Termo'' [Node ''IDENTIFIER(a)'' []],
            Node ''Termo'' [Node ''IDENTIFIER(b)'' []]],
          Node ''Termo'' [Node ''IDENTIFIER(c)'' []]]]))"
proof
  show "tree_of (parse_expressao_aritmetica 10) ''2+3*4'' =
     Some (Inr (Node ''ExpressaoAritmetica''
       [Node ''+''
         [Node ''Termo'' [Node ''NUMBER(2)'' []],
          Node ''Termo'' [Node ''*'' [Node ''NUMBER(3)'' [], Node ''NUMBER(4)'' []]]]]))"
    unfolding tree_of_def tokens_2_plus_3_times_4 by (simp add: parser_eval)
  show "tree_of (parse_expressao_aritmetica 10) ''a-b-c'' =
     Some (Inr (Node ''ExpressaoAritmetica''
       [Node ''-''
         [Node ''-''
           [Node ''Termo'' [Node ''IDENTIFIER(a)'' []],
            Node ''Termo'' [Node ''IDENTIFIER(b)'' []]],
          Node ''Termo'' [Node ''IDENTIFIER(c)'' []]]]))"
    unfolding tree_of_def tokens_a_minus_b_minus_c by (simp add: parser_eval)
qed

text \<open>Claim C5. On the tokens of \<^verbatim>\<open>a<b<c\<close>, \<open>parse_expressao_relacional\<close> consumes one
  relational operator: it returns the tree of \<^verbatim>\<open>a<b\<close> and leaves the parser on the second
  \<^verbatim>\<open><\<close> (index 3, column 4). That token then is a syntax fault at the boundary of what
  encloses the expression: in the statement \<^verbatim>\<open>x = a<b<c\<close> the command loop rejects it, and
  in \<^verbatim>\<open>x = (a<b<c)\<close> the closing parenthesis is missed at it.\<close>

theorem C5_relational_no_chain:
  "map_option (map_sum id (\<lambda>(t, p). (t, ps_pos p, ps_current_token p)))
     (case Parser [Token ''IDENTIFIER'' (Some ''a'') 1 1, Token ''LT'' (Some ''<'') 1 2,
         Token ''IDENTIFIER'' (Some ''b'') 1 3, Token ''LT'' (Some ''<'') 1 4,
         Token ''IDENTIFIER'' (Some ''c'') 1 5, Token ''EOF'' None 1 5] of
        Inl e \<Rightarrow> Some (Inl e) | Inr p \<Rightarrow> parse_expressao_relacional 10 p)
   = Some (Inr (Node ''ExpressaoRelacional''
         [Node ''<''
           [Node ''ExpressaoAritmetica'' [Node ''Termo'' [Node ''IDENTIFIER(a)'' []]],
            Node ''ExpressaoAritmetica'' [Node ''Termo'' [Node ''IDENTIFIER(b)'' []]]]],
        3, Token ''LT'' (Some ''<'') 1 4))
   \<and> tokenize (Lexer ''a<b<c'') =
       Inr [Token ''IDENTIFIER'' (Some ''a'') 1 1, Token ''LT'' (Some ''<'') 1 2,
         Token ''IDENTIFIER'' (Some ''b'') 1 3, Token ''LT'' (Some ''<'') 1 4,
         Token ''IDENTIFIER'' (Some ''c'') 1 5, Token ''EOF'' None 1 5]
   \<and> tree_of (parse_programa 20) ''inicio decls fimdecls codigo x = a<b<c fimprog'' =
       Some (Inl (SyntaxError (''Comando inv'' @ a_acute @ ''lido'') (Token ''LT'' (Some ''<'') 1 37)))
   \<and> tree_of (parse_programa 20) ''inicio decls fimdecls codigo x = (a<b<c) fimprog'' =
       Some (Inl (SyntaxError ''Esperado RPAREN, encontrado LT'' (Token ''LT'' (Some ''<'') 1 38)))"
proof (intro conjI)
  show "map_option (map_sum id (\<lambda>(t, p). (t, ps_pos p, ps_current_token p)))
     (case Parser [Token ''IDENTIFIER'' (Some ''a'') 1 1, Token ''LT'' (Some ''<'') 1 2,
         Token ''IDENTIFIER'' (Some ''b'') 1 3, Token ''LT'' (Some ''<'') 1 4,
         Token ''IDENTIFIER'' (Some ''c'') 1 5, Token ''EOF'' None 1 5] of
        Inl e \<Rightarrow> Some (Inl e) | Inr p \<Rightarrow> parse_expressao_relacional 10 p)
   = Some (Inr (Node ''ExpressaoRelacional''
         [Node ''<''
           [Node ''ExpressaoAritmetica'' [Node ''Termo'' [Node ''IDENTIFIER(a)'' []]],
            Node ''ExpressaoAritmetica'' [Node ''Termo'' [Node ''IDENTIFIER(b)'' []]]]],
        3, Token ''LT'' (Some ''<'') 1 4))"
    by (simp add: parser_eval)
  show "tokenize (Lexer ''a<b<c'') =
       Inr [Token ''IDENTIFIER'' (Some ''a'') 1 1, Token ''LT'' (Some ''<'') 1 2,
         Token ''IDENTIFIER'' (Some ''b'') 1 3, Token ''LT'' (Some ''<'') 1 4,
         Token ''IDENTIFIER'' (Some ''c'') 1 5, Token ''EOF'' None 1 5]"
    by (rule tokens_a_lt_b_lt_c)
  show "tree_of (parse_programa 20) ''inicio decls fimdecls codigo x = a<b<c fimprog'' =
       Some (Inl (SyntaxError (''Comando inv'' @ a_acute @ ''lido'') (Token ''LT'' (Some ''<'') 1 37)))"
    unfolding tree_of_def tokens_assign_chain by (simp add: parser_eval)
  show "tree_of (parse_programa 20) ''inicio decls fimdecls codigo x = (a<b<c) fimprog'' =
       Some (Inl (SyntaxError ''Esperado RPAREN, encontrado LT'' (Token ''LT'' (Some ''<'') 1 38)))"
    unfolding tree_of_def tokens_paren_chain by (simp add: parser_eval)
qed




end
